theory Spec2Isabelle
  imports Main "HOL-Library.Word"
begin

section \<open>Migration entity (migration/migration.go)\<close>

text \<open>
  A version is a Go \<open>int64\<close>: a 64-bit word read in two's complement. Addition wraps,
  and the comparisons of the source are the signed ones (\<open><s\<close>).
\<close>

type_synonym int64 = "64 word"

text \<open>
  The constants of errors.go, the driver's \<open>mongo.ErrNoDocuments\<close>, and \<open>OtherError\<close>
  for every other error value (a driver failure, or what a migration body returns).
\<close>

datatype error =
    ErrorNoMigrations
  | ErrorCommandRequired
  | ErrorUnexpectedCommand
  | ErrorInvalidVersionArgumentFormat
  | ErrorVersionNumberRequired
  | ErrorMigrationsCollectionAlreadyExists
  | ErrorUnequalCountsOfMigrations
  | ErrorMigrationsAreNotInitialized
  | ErrorTargetVersionNotFound
  | ErrorSomeMigrationsAreAbsent
  | ErrNoDocuments
  | OtherError string

text \<open>
  \<open>ApplyFunc\<close> is \<open>func(db *mongo.Database) error\<close>. A body works on the collections of
  the application, the type \<open>'d\<close>; it returns its error and the data it leaves behind.
  The bodies are taken not to touch the collection \<open>migrations\<close> itself. A Go function
  value may be nil (it is in every migration decoded from a stored document): \<open>None\<close>.
\<close>

type_synonym 'd ApplyFunc = "('d \<Rightarrow> error option \<times> 'd) option"

record 'd Migration =
  Version :: int64
  Name :: string
  Up :: "'d ApplyFunc"
  Down :: "'d ApplyFunc"
  Stored :: bool

definition CompareMigrations :: "'d Migration \<Rightarrow> 'd Migration \<Rightarrow> bool" where
  "CompareMigrations left right = (Version left <s Version right)"

definition Less :: "'d Migration \<Rightarrow> 'd Migration \<Rightarrow> bool" where
  "Less mig migration = CompareMigrations mig migration"

definition Eq :: "'d Migration \<Rightarrow> 'd Migration \<Rightarrow> bool" where
  "Eq mig migration = (Version mig = Version mig)"

text \<open>
  Modelled from the spec: \<open>migration.DummyUpDown\<close> is used by \<open>NewMigrator\<close> but its
  declaration is not among the sources; the spec and the README describe it as the
  built-in no-op operation, which succeeds and changes nothing.
\<close>

definition DummyUpDown :: "'d ApplyFunc" where
  "DummyUpDown = Some (\<lambda>d. (None, d))"

section \<open>Registry (NewMigrator)\<close>

text \<open>
  The literal of line 23: only \<open>Name\<close>, \<open>Up\<close> and \<open>Down\<close> are given, so \<open>Version\<close> is 0
  and \<open>Stored\<close> is false.
\<close>

definition zeroMigration :: "'d Migration" where
  "zeroMigration =
     \<lparr>Version = 0, Name = ''-'', Up = DummyUpDown, Down = DummyUpDown, Stored = False\<rparr>"

text \<open>
  \<open>sort.Sort\<close> of the Go library orders the slice by \<open>Less\<close>, the signed comparison of
  the versions. It is not stable; on pairwise distinct versions every sort gives the
  same list, the one below. A \<open>Migrator\<close> is represented by its field \<open>migrations\<close>.
\<close>

definition sortMigrations :: "'d Migration list \<Rightarrow> 'd Migration list" where
  "sortMigrations ms = sort_key (\<lambda>m. sint (Version m)) ms"

definition NewMigrator :: "'d Migration list \<Rightarrow> 'd Migration list" where
  "NewMigrator migrations = sortMigrations (migrations @ [zeroMigration])"

section \<open>Reconciliation (mergeMigrations, correlateMigrations)\<close>

text \<open>
  The first loop of \<open>mergeMigrations\<close>, lines 358 to 370, on the counters \<open>i\<close> and \<open>j\<close>.
  The second comparison reads \<open>applied[j]\<close>: Go panics when \<open>j\<close> is not below the length
  of \<open>applied\<close>, and the result is \<open>None\<close> then.
\<close>

function merge_loop1 ::
  "'d Migration list \<Rightarrow> 'd Migration list \<Rightarrow> int64 \<Rightarrow> nat \<Rightarrow> nat \<Rightarrow> 'd Migration list
     \<Rightarrow> (nat \<times> nat \<times> 'd Migration list) option" where
  "merge_loop1 applied actual mx i j merged =
     (if i < length applied \<and> j < length actual
          \<and> (length actual = 0 \<or> Version (actual ! j) <s mx) then
        (if Less (applied ! i) (actual ! j) then
           merge_loop1 applied actual mx (i + 1) j (merged @ [applied ! i])
         else if j < length applied then
           (if Less (actual ! j) (applied ! j) then
              merge_loop1 applied actual mx i (j + 1) (merged @ [actual ! j])
            else
              merge_loop1 applied actual mx (i + 1) (j + 1) (merged @ [applied ! i]))
         else None)
      else Some (i, j, merged))"
  by pat_completeness auto
termination
  by (relation "measure (\<lambda>(applied, actual, mx, i, j, merged).
        (length applied - i) + (length actual - j))") auto

declare merge_loop1.simps [simp del]

text \<open>The second loop, lines 372 to 375.\<close>

function merge_loop2 :: "'d Migration list \<Rightarrow> nat \<Rightarrow> 'd Migration list \<Rightarrow> 'd Migration list" where
  "merge_loop2 applied i merged =
     (if i < length applied then merge_loop2 applied (i + 1) (merged @ [applied ! i])
      else merged)"
  by pat_completeness auto
termination
  by (relation "measure (\<lambda>(applied, i, merged). length applied - i)") auto

declare merge_loop2.simps [simp del]

text \<open>The third loop, lines 377 to 380.\<close>

function merge_loop3 ::
  "'d Migration list \<Rightarrow> int64 \<Rightarrow> nat \<Rightarrow> 'd Migration list \<Rightarrow> 'd Migration list" where
  "merge_loop3 actual mx j merged =
     (if j < length actual \<and> (length actual = 0 \<or> Version (actual ! j) <s mx) then
        merge_loop3 actual mx (j + 1) (merged @ [actual ! j])
      else merged)"
  by pat_completeness auto
termination
  by (relation "measure (\<lambda>(actual, mx, j, merged). length actual - j)") auto

declare merge_loop3.simps [simp del]

text \<open>The bound \<open>max\<close> of lines 348 to 356; it stays 0 when \<open>actual\<close> is empty.\<close>

definition mergeMax :: "'d Migration list \<Rightarrow> int64 \<Rightarrow> int64" where
  "mergeMax actual target =
     (if length actual > 0 then
        (if target = - 1 then Version (actual ! (length actual - 1)) + 1 else target + 1)
      else 0)"

definition mergeMigrations ::
  "'d Migration list \<Rightarrow> 'd Migration list \<Rightarrow> int64 \<Rightarrow> 'd Migration list option" where
  "mergeMigrations applied actual target =
     (let mx = mergeMax actual target in
      case merge_loop1 applied actual mx 0 0 [] of
        None \<Rightarrow> None
      | Some (i, j, merged) \<Rightarrow>
          Some (merge_loop3 actual mx j (merge_loop2 applied i merged)))"

text \<open>
  \<open>correlateMigrations\<close>, lines 388 to 416: the loop on \<open>i\<close> and \<open>j\<close>, then the test
  after it. The result is the slice \<open>correlated\<close> and the error.
\<close>

function correlate_loop ::
  "'d Migration list \<Rightarrow> 'd Migration list \<Rightarrow> nat \<Rightarrow> nat \<Rightarrow> 'd Migration list
     \<Rightarrow> 'd Migration list \<times> error option" where
  "correlate_loop applied actual i j correlated =
     (if i < length applied \<and> j < length actual then
        (if Less (applied ! i) (actual ! j) then
           (correlated @ [applied ! i], Some ErrorSomeMigrationsAreAbsent)
         else if Less (actual ! j) (applied ! i) then
           correlate_loop applied actual i (j + 1) correlated
         else
           correlate_loop applied actual (i + 1) (j + 1) (correlated @ [actual ! j]))
      else if i < length applied then
        (correlated @ [applied ! i], Some ErrorSomeMigrationsAreAbsent)
      else (correlated, None))"
  by pat_completeness auto
termination
  by (relation "measure (\<lambda>(applied, actual, i, j, correlated).
        (length applied - i) + (length actual - j))") auto

declare correlate_loop.simps [simp del]

definition correlateMigrations ::
  "'d Migration list \<Rightarrow> 'd Migration list \<Rightarrow> 'd Migration list \<times> error option" where
  "correlateMigrations applied actual = correlate_loop applied actual 0 0 []"

section \<open>The database behind the driver\<close>

text \<open>
  What a \<open>Migration\<close> leaves in the collection: the fields with a bson name, \<open>version\<close>
  and \<open>name\<close>. The functions and \<open>Stored\<close> are tagged \<open>bson:"-"\<close> and are not written.
\<close>

record document =
  version :: int64
  name :: string

definition encode :: "'d Migration \<Rightarrow> document" where
  "encode mig = \<lparr>version = Version mig, name = Name mig\<rparr>"

text \<open>
  \<open>cursor.Decode(&mig)\<close> into a fresh \<open>Migration\<close>, followed by \<open>mig.Stored = true\<close>:
  the two functions stay nil. A document here always has both fields with their types,
  so that \<open>Decode\<close> does not fail.
\<close>

definition decode :: "document \<Rightarrow> 'd Migration" where
  "decode doc =
     \<lparr>Version = version doc, Name = name doc, Up = None, Down = None, Stored = True\<rparr>"

text \<open>A record of which migration bodies ran, in order; the program does not read it.\<close>

datatype call = UpCall int64 | DownCall int64

text \<open>
  The state of the database: the documents of the collection \<open>migrations\<close> in insertion
  order, the data of the application, the record of the bodies run, and the outcomes
  the driver will give to the coming operations (\<open>Some e\<close>: the operation fails with
  \<open>e\<close> and changes nothing; \<open>None\<close>, or no entry left: it goes through).
\<close>

record 'd database =
  migrations_coll :: "document list"
  data :: 'd
  calls :: "call list"
  faults :: "error option list"

definition driver_op :: "'d database \<Rightarrow> error option \<times> 'd database" where
  "driver_op db =
     (case faults db of
        [] \<Rightarrow> (None, db)
      | f # fs \<Rightarrow> (f, db\<lparr>faults := fs\<rparr>))"

text \<open>
  \<open>Find\<close> with the empty filter and the sort \<open>{version: 1}\<close>, and the cursor read to its
  end. On a missing or empty collection the driver returns an empty cursor and no
  error: \<open>mongo.ErrNoDocuments\<close> is what \<open>FindOne\<close> gives, not \<open>Find\<close>.
\<close>

definition Find :: "'d database \<Rightarrow> (error + document list) \<times> 'd database" where
  "Find db =
     (case driver_op db of
        (Some e, db') \<Rightarrow> (Inl e, db')
      | (None, db') \<Rightarrow> (Inr (sort_key (\<lambda>d. sint (version d)) (migrations_coll db')), db'))"

text \<open>\<open>FindOne\<close> with the empty filter and the sort \<open>{version: -1}\<close>.\<close>

definition FindOne_latest :: "'d database \<Rightarrow> (error + document) \<times> 'd database" where
  "FindOne_latest db =
     (case driver_op db of
        (Some e, db') \<Rightarrow> (Inl e, db')
      | (None, db') \<Rightarrow>
          (case rev (sort_key (\<lambda>d. sint (version d)) (migrations_coll db')) of
             [] \<Rightarrow> (Inl ErrNoDocuments, db')
           | doc # _ \<Rightarrow> (Inr doc, db')))"

text \<open>\<open>FindOne\<close> with the filter \<open>{version: 0}\<close>.\<close>

definition FindOne_zero :: "'d database \<Rightarrow> (error + document) \<times> 'd database" where
  "FindOne_zero db =
     (case driver_op db of
        (Some e, db') \<Rightarrow> (Inl e, db')
      | (None, db') \<Rightarrow>
          (case filter (\<lambda>d. version d = 0) (migrations_coll db') of
             [] \<Rightarrow> (Inl ErrNoDocuments, db')
           | doc # _ \<Rightarrow> (Inr doc, db')))"

definition InsertOne :: "document \<Rightarrow> 'd database \<Rightarrow> error option \<times> 'd database" where
  "InsertOne doc db =
     (case driver_op db of
        (Some e, db') \<Rightarrow> (Some e, db')
      | (None, db') \<Rightarrow> (None, db'\<lparr>migrations_coll := migrations_coll db' @ [doc]\<rparr>))"

definition InsertMany :: "document list \<Rightarrow> 'd database \<Rightarrow> error option \<times> 'd database" where
  "InsertMany docs db =
     (case driver_op db of
        (Some e, db') \<Rightarrow> (Some e, db')
      | (None, db') \<Rightarrow> (None, db'\<lparr>migrations_coll := migrations_coll db' @ docs\<rparr>))"

text \<open>\<open>DeleteOne\<close> with the filter \<open>{version: v}\<close>: the first match goes, if there is one.\<close>

fun delete_first :: "int64 \<Rightarrow> document list \<Rightarrow> document list" where
  "delete_first v [] = []"
| "delete_first v (d # ds) = (if version d = v then ds else d # delete_first v ds)"

definition DeleteOne :: "int64 \<Rightarrow> 'd database \<Rightarrow> error option \<times> 'd database" where
  "DeleteOne v db =
     (case driver_op db of
        (Some e, db') \<Rightarrow> (Some e, db')
      | (None, db') \<Rightarrow> (None, db'\<lparr>migrations_coll := delete_first v (migrations_coll db')\<rparr>))"

definition Drop :: "'d database \<Rightarrow> error option \<times> 'd database" where
  "Drop db =
     (case driver_op db of
        (Some e, db') \<Rightarrow> (Some e, db')
      | (None, db') \<Rightarrow> (None, db'\<lparr>migrations_coll := []\<rparr>))"

text \<open>
  Calling a migration body: a nil function panics (\<open>None\<close>); otherwise the body runs on
  the data, and the call is recorded whether it fails or not.
\<close>

definition run_body ::
  "'d ApplyFunc \<Rightarrow> call \<Rightarrow> 'd database \<Rightarrow> (error option \<times> 'd database) option" where
  "run_body f c db =
     (case f of
        None \<Rightarrow> None
      | Some g \<Rightarrow>
          (case g (data db) of
             (err, d') \<Rightarrow> Some (err, db\<lparr>data := d', calls := calls db @ [c]\<rparr>)))"

section \<open>Commands (migrator.go)\<close>

text \<open>
  A command returns \<open>(oldVersion, newVersion, err)\<close> and leaves a database. \<open>Up\<close>, \<open>Down\<close>
  and \<open>Reset\<close> can panic instead of returning: their result is an option. The receiver
  \<open>m\<close> is the slice \<open>m.migrations\<close>.
\<close>

type_synonym result = "int64 \<times> int64 \<times> error option"

definition Migrator_Init :: "'d Migration list \<Rightarrow> 'd database \<Rightarrow> result \<times> 'd database" where
  "Migrator_Init m db =
     (let migr = \<lparr>version = 0, name = ''-''\<rparr> in
      case FindOne_zero db of
        (Inr mig, db1) \<Rightarrow> ((0, 0, Some ErrorMigrationsCollectionAlreadyExists), db1)
      | (Inl e, db1) \<Rightarrow>
          if e \<noteq> ErrNoDocuments then ((0, 0, Some e), db1)
          else (case InsertOne migr db1 of (err, db2) \<Rightarrow> ((0, 0, err), db2)))"

text \<open>The loop of \<open>Up\<close> over \<open>merged\<close>, lines 129 to 143.\<close>

fun Up_loop ::
  "'d Migration list \<Rightarrow> int64 \<Rightarrow> int64 \<Rightarrow> 'd database \<Rightarrow> result option \<times> 'd database" where
  "Up_loop [] oldVersion newVersion db = (Some (oldVersion, newVersion, None), db)"
| "Up_loop (migr # rest) oldVersion newVersion db =
     (if \<not> Stored migr then
        (case run_body (Up migr) (UpCall (Version migr)) db of
           None \<Rightarrow> (None, db)
         | Some (Some e, db1) \<Rightarrow> (Some (oldVersion, Version migr, Some e), db1)
         | Some (None, db1) \<Rightarrow>
             (case InsertOne (encode (migr\<lparr>Stored := True\<rparr>)) db1 of
                (Some e, db2) \<Rightarrow> (Some (oldVersion, Version migr, Some e), db2)
              | (None, db2) \<Rightarrow> Up_loop rest oldVersion (Version migr) db2))
      else Up_loop rest oldVersion newVersion db)"

definition Migrator_Up ::
  "'d Migration list \<Rightarrow> 'd database \<Rightarrow> int64 \<Rightarrow> result option \<times> 'd database" where
  "Migrator_Up m db target =
     (case Find db of
        (Inl e, db1) \<Rightarrow>
          (Some (0, 0, Some (if e = ErrNoDocuments then ErrorMigrationsAreNotInitialized else e)),
           db1)
      | (Inr docs, db1) \<Rightarrow>
          (let history = map decode docs;
               version = (if length history > 0 then Version (history ! (length history - 1))
                          else 0)
           in case mergeMigrations history m target of
                None \<Rightarrow> (None, db1)
              | Some merged \<Rightarrow> Up_loop merged version version db1))"

text \<open>
  The loop of \<open>Down\<close>, lines 170 to 187: the counter \<open>i\<close> runs from the last index down
  to 0, and the argument is \<open>i + 1\<close>.
\<close>

fun Down_loop ::
  "'d Migration list \<Rightarrow> int64 \<Rightarrow> nat \<Rightarrow> 'd database \<Rightarrow> result option \<times> 'd database" where
  "Down_loop m old 0 db = (Some (old, old, None), db)"
| "Down_loop m old (Suc i) db =
     (let mig = m ! i in
      if Version mig = old then
        (if i > 0 then
           (let newVersion = Version (m ! (i - 1)) in
            case run_body (Down mig) (DownCall (Version mig)) db of
              None \<Rightarrow> (None, db)
            | Some (Some e, db1) \<Rightarrow> (Some (old, newVersion, Some e), db1)
            | Some (None, db1) \<Rightarrow>
                (case DeleteOne (Version mig) db1 of
                   (err, db2) \<Rightarrow> (Some (old, newVersion, err), db2)))
         else (Some (old, old, None), db))
      else Down_loop m old i db)"

definition Migrator_Down :: "'d Migration list \<Rightarrow> 'd database \<Rightarrow> result option \<times> 'd database" where
  "Migrator_Down m db =
     (case FindOne_latest db of
        (Inl e, db1) \<Rightarrow>
          (Some (0, 0, Some (if e = ErrNoDocuments then ErrorMigrationsAreNotInitialized else e)),
           db1)
      | (Inr old, db1) \<Rightarrow> Down_loop m (version old) (length m) db1)"

text \<open>
  The loop of \<open>Reset\<close> over \<open>correlated\<close>, lines 234 to 255, with the argument \<open>i + 1\<close>
  as above.
\<close>

fun Reset_loop ::
  "'d Migration list \<Rightarrow> int64 \<Rightarrow> int64 \<Rightarrow> nat \<Rightarrow> 'd database
     \<Rightarrow> result option \<times> 'd database" where
  "Reset_loop correlated oldVersion newVersion 0 db = (Some (oldVersion, newVersion, None), db)"
| "Reset_loop correlated oldVersion newVersion (Suc i) db =
     (let migr = correlated ! i;
          newVersion' = (if i > 0 then Version (correlated ! (i - 1)) else Version migr)
      in case run_body (Down migr) (DownCall (Version migr)) db of
           None \<Rightarrow> (None, db)
         | Some (Some e, db1) \<Rightarrow> (Some (oldVersion, newVersion', Some e), db1)
         | Some (None, db1) \<Rightarrow>
             (if 0 <s Version migr then
                (case DeleteOne (Version migr) db1 of
                   (Some e, db2) \<Rightarrow> (Some (oldVersion, newVersion', Some e), db2)
                 | (None, db2) \<Rightarrow> Reset_loop correlated oldVersion newVersion' i db2)
              else Reset_loop correlated oldVersion newVersion' i db1))"

definition Migrator_Reset :: "'d Migration list \<Rightarrow> 'd database \<Rightarrow> result option \<times> 'd database" where
  "Migrator_Reset m db =
     (case Find db of
        (Inl e, db1) \<Rightarrow>
          (Some (0, 0, Some (if e = ErrNoDocuments then ErrorMigrationsAreNotInitialized else e)),
           db1)
      | (Inr docs, db1) \<Rightarrow>
          (let history = map decode docs in
           if length history > 0 then
             (let version = Version (history ! (length history - 1)) in
              case correlateMigrations history m of
                (correlated, Some e) \<Rightarrow> (Some (version, version, Some e), db1)
              | (correlated, None) \<Rightarrow>
                  Reset_loop correlated version version (length correlated) db1)
           else (Some (0, 0, None), db1)))"

definition Migrator_Version :: "'d Migration list \<Rightarrow> 'd database \<Rightarrow> result \<times> 'd database" where
  "Migrator_Version m db =
     (case FindOne_latest db of
        (Inl e, db1) \<Rightarrow>
          ((0, 0, Some (if e = ErrNoDocuments then ErrorMigrationsAreNotInitialized else e)), db1)
      | (Inr mig, db1) \<Rightarrow> ((version mig, version mig, None), db1))"

text \<open>
  The loop of \<open>SetVersion\<close>, lines 292 to 298: it returns \<open>index\<close> (-1 when the target
  was not met) and \<open>migs\<close>.
\<close>

fun SetVersion_loop ::
  "'d Migration list \<Rightarrow> int64 \<Rightarrow> nat \<Rightarrow> 'd Migration list \<Rightarrow> int \<times> 'd Migration list" where
  "SetVersion_loop [] target i migs = (- 1, migs)"
| "SetVersion_loop (migr # rest) target i migs =
     (if Version migr = target then (int i, migs @ [migr])
      else SetVersion_loop rest target (i + 1) (migs @ [migr]))"

definition Migrator_SetVersion ::
  "'d Migration list \<Rightarrow> 'd database \<Rightarrow> int64 \<Rightarrow> result \<times> 'd database" where
  "Migrator_SetVersion m db target =
     (case Migrator_Version m db of
        ((oldVersion, _, Some e), db1) \<Rightarrow> ((oldVersion, 0, Some e), db1)
      | ((oldVersion, _, None), db1) \<Rightarrow>
          (case SetVersion_loop m target 0 [] of
             (index, migs) \<Rightarrow>
               if index = - 1 then ((oldVersion, 0, Some ErrorTargetVersionNotFound), db1)
               else if oldVersion = Version (m ! nat index) then
                 ((oldVersion, oldVersion, None), db1)
               else
                 (case Drop db1 of
                    (Some e, db2) \<Rightarrow> ((oldVersion, 0, Some e), db2)
                  | (None, db2) \<Rightarrow>
                      (case InsertMany (map encode migs) db2 of
                         (Some e, db3) \<Rightarrow> ((oldVersion, 0, Some e), db3)
                       | (None, db3) \<Rightarrow>
                           ((oldVersion, Version (migs ! (length migs - 1)), None), db3)))))"

text \<open>
  \<open>parseVersion\<close>, lines 321 to 339. \<open>strconv.ParseInt\<close> of the Go library is the
  parameter \<open>ParseInt\<close>, \<open>None\<close> when it returns an error. Without an argument the
  version is -1 unless one is required: -1 is how \<open>Run\<close> tells \<open>Up\<close> that no target was
  given.
\<close>

definition parseVersion ::
  "(string \<Rightarrow> int64 option) \<Rightarrow> bool \<Rightarrow> string list \<Rightarrow> error + int64" where
  "parseVersion ParseInt required args =
     (if length args = 0 then
        (if required then Inl ErrorVersionNumberRequired else Inr (- 1))
      else
        (case ParseInt (args ! 0) of
           None \<Rightarrow> Inl ErrorInvalidVersionArgumentFormat
         | Some v \<Rightarrow> Inr v))"

text \<open>\<open>Run\<close>, lines 33 to 72, on the database that \<open>m.client.Database(db)\<close> names.\<close>

definition Run ::
  "(string \<Rightarrow> int64 option) \<Rightarrow> 'd Migration list \<Rightarrow> 'd database \<Rightarrow> string list
     \<Rightarrow> result option \<times> 'd database" where
  "Run ParseInt m base args =
     (if length args = 0 then (Some (0, 0, Some ErrorCommandRequired), base)
      else if args ! 0 = ''init'' then
        (case Migrator_Init m base of (r, db') \<Rightarrow> (Some r, db'))
      else if args ! 0 = ''up'' then
        (case parseVersion ParseInt False (drop 1 args) of
           Inl err \<Rightarrow> (Some (0, 0, Some err), base)
         | Inr target \<Rightarrow> Migrator_Up m base target)
      else if args ! 0 = ''down'' then Migrator_Down m base
      else if args ! 0 = ''reset'' then Migrator_Reset m base
      else if args ! 0 = ''version'' then
        (case Migrator_Version m base of (r, db') \<Rightarrow> (Some r, db'))
      else if args ! 0 = ''set_version'' then
        (case parseVersion ParseInt True (drop 1 args) of
           Inl err \<Rightarrow> (Some (0, 0, Some err), base)
         | Inr target \<Rightarrow>
             (case Migrator_SetVersion m base target of (r, db') \<Rightarrow> (Some r, db')))
      else (Some (0, 0, Some ErrorUnexpectedCommand), base))"

section \<open>The walks of the reconciliation on the remaining suffixes\<close>

text \<open>
  The loop of \<open>correlateMigrations\<close> read as a recursion on what is left of the two
  slices beyond \<open>i\<close> and \<open>j\<close>. It is a device of the proofs; \<open>correlate_loop_suffix\<close>
  below shows that the loop computes it.
\<close>

fun correlate_list ::
  "'d Migration list \<Rightarrow> 'd Migration list \<Rightarrow> 'd Migration list \<times> error option" where
  "correlate_list [] ys = ([], None)"
| "correlate_list (a # as) [] = ([a], Some ErrorSomeMigrationsAreAbsent)"
| "correlate_list (a # as) (b # bs) =
     (if Less a b then ([a], Some ErrorSomeMigrationsAreAbsent)
      else if Less b a then correlate_list (a # as) bs
      else (case correlate_list as bs of (out, e) \<Rightarrow> (b # out, e)))"

section \<open>Example inputs\<close>

text \<open>
  A migration as a caller registers it, with the built-in no-op bodies; one whose bodies
  fail; and a database whose collection holds the given versions and whose driver
  never fails.
\<close>

definition example_migration :: "int64 \<Rightarrow> unit Migration" where
  "example_migration v =
     \<lparr>Version = v, Name = ''m'', Up = DummyUpDown, Down = DummyUpDown, Stored = False\<rparr>"

definition failing_migration :: "int64 \<Rightarrow> unit Migration" where
  "failing_migration v =
     \<lparr>Version = v, Name = ''f'', Up = Some (\<lambda>d. (Some (OtherError ''failed''), d)),
      Down = Some (\<lambda>d. (Some (OtherError ''failed''), d)), Stored = False\<rparr>"

definition example_db :: "int64 list \<Rightarrow> unit database" where
  "example_db vs =
     \<lparr>migrations_coll = map (\<lambda>v. \<lparr>version = v, name = ''m''\<rparr>) vs, data = (), calls = [],
      faults = []\<rparr>"

section \<open>Ordering by version\<close>

text \<open>
  \<open>sorted_wrt Less\<close> says that a list is strictly ascending by version, in the signed
  order of the source.
\<close>

lemma sint_eq_iff: "sint (a::int64) = sint b \<longleftrightarrow> a = b"
  by (auto intro: signed_word_eqI)

lemma map_insort_key: "map f (insort_key f x ys) = insort (f x) (map f ys)"
  by (induction ys) auto

lemma map_sort_key: "map f (sort_key f xs) = sort (map f xs)"
  by (induction xs) (auto simp: map_insort_key)

lemma sort_key_snoc_least:
  "\<forall>x\<in>set xs. f z < f x \<Longrightarrow> sort_key f (xs @ [z]) = z # sort_key f xs"
proof (induction xs)
  case Nil
  then show ?case by simp
next
  case (Cons x xs)
  then have "\<not> f x \<le> f z" and "sort_key f (xs @ [z]) = z # sort_key f xs"
    by (simp_all add: not_le)
  then show ?case by simp
qed

lemma sorted_wrt_Less_iff:
  fixes ms :: "'d Migration list"
  shows "sorted_wrt Less ms
         \<longleftrightarrow> sorted (map (\<lambda>m. sint (Version m)) ms) \<and> distinct (map Version ms)"
proof -
  have "Less = (\<lambda>a b :: 'd Migration. sint (Version a) < sint (Version b))"
    by (intro ext) (simp add: Less_def CompareMigrations_def word_sless_alt)
  then have "sorted_wrt Less ms \<longleftrightarrow> sorted_wrt (<) (map (\<lambda>m. sint (Version m)) ms)"
    by (simp add: sorted_wrt_map)
  also have "\<dots> \<longleftrightarrow> sorted (map (\<lambda>m. sint (Version m)) ms)
                   \<and> distinct (map (\<lambda>m. sint (Version m)) ms)"
    by (rule strict_sorted_iff)
  also have "distinct (map (\<lambda>m. sint (Version m)) ms) \<longleftrightarrow> distinct (map Version ms)"
    by (simp add: distinct_map inj_on_def sint_eq_iff)
  finally show ?thesis .
qed

lemma sortMigrations_sorted: "sorted (map (\<lambda>m. sint (Version m)) (sortMigrations ms))"
  by (simp add: sortMigrations_def)

lemma sortMigrations_distinct:
  "distinct (map Version (sortMigrations ms)) \<longleftrightarrow> distinct (map Version ms)"
proof -
  have "distinct (map (\<lambda>m. sint (Version m)) (sortMigrations ms))
        \<longleftrightarrow> distinct (map (\<lambda>m. sint (Version m)) ms)"
    by (simp add: sortMigrations_def map_sort_key)
  then show ?thesis
    by (simp add: distinct_map inj_on_def sint_eq_iff)
qed

lemma set_NewMigrator: "set (NewMigrator ms) = insert zeroMigration (set ms)"
  by (simp add: NewMigrator_def sortMigrations_def)

section \<open>The command line\<close>

lemma Run_up_no_target: "Run ParseInt m base [''up''] = Migrator_Up m base (- 1)"
  by (simp add: Run_def parseVersion_def)

lemma Run_up_target:
  "ParseInt t = Some target \<Longrightarrow> Run ParseInt m base [''up'', t] = Migrator_Up m base target"
  by (simp add: Run_def parseVersion_def)

section \<open>The merge on concrete histories\<close>

text \<open>
  C1. \<open>up\<close> with target 4, known set 0, 2, 4 and persisted history 0, 1, 4 (version 1 was
  applied by code that has since been removed). Migration 2 is known, at most the target
  and not applied, and it is not executed; migration 4 is applied already and is
  executed again, and a second record of it is stored.
\<close>

theorem Up_skips_unapplied_migration:
  "(case Migrator_Up (NewMigrator [example_migration 2, example_migration 4])
           (example_db [0, 1, 4]) 4 of
      (r, db') \<Rightarrow>
        r = Some (4, 4, None) \<and> calls db' = [UpCall 4]
        \<and> map version (migrations_coll db') = [0, 1, 4, 4])"
  by code_simp

text \<open>
  C2. The merge of the ascending history 0, 5 with the ascending known set 0, 1, 2, 5
  and no target reads \<open>applied[2]\<close> in a slice of length 2: the index is out of range.
\<close>

theorem mergeMigrations_index_out_of_range:
  "mergeMigrations (map decode (migrations_coll (example_db [0, 5])))
     (NewMigrator [example_migration 1, example_migration 2, example_migration 5]) (- 1)
   = None"
  by code_simp

section \<open>Commands before \<open>init\<close>\<close>

text \<open>
  C4. On an empty collection \<open>up\<close> returns no error: it runs the bodies of the zero
  migration and of migration 1 and stores both records. \<open>reset\<close> returns no error
  either.
\<close>

theorem Up_and_Reset_before_Init:
  "(case Migrator_Up (NewMigrator [example_migration 1]) (example_db []) (- 1) of
      (r, db') \<Rightarrow>
        r = Some (0, 1, None) \<and> calls db' = [UpCall 0, UpCall 1]
        \<and> map version (migrations_coll db') = [0, 1])
   \<and> fst (Migrator_Reset (NewMigrator [example_migration 1]) (example_db []))
       = Some (0, 0, None)"
  by code_simp

text \<open>
  \<open>down\<close> and \<open>version\<close> read the collection with \<open>FindOne\<close>: on an empty collection
  both return \<open>ErrorMigrationsAreNotInitialized\<close> and leave the database as it is.
\<close>

lemma Down_and_Version_before_Init:
  assumes "migrations_coll db = []" and "faults db = []"
  shows "Migrator_Down m db = (Some (0, 0, Some ErrorMigrationsAreNotInitialized), db)"
    and "Migrator_Version m db = ((0, 0, Some ErrorMigrationsAreNotInitialized), db)"
  using assms
  by (simp_all add: Migrator_Down_def Migrator_Version_def FindOne_latest_def driver_op_def)

section \<open>The normalized known set\<close>

text \<open>
  C7, as stated, fails: a caller's list with the single version -1 has unique versions,
  and the first element of the normalized list is that migration, not the zero
  migration.
\<close>

theorem NewMigrator_first_counterexample:
  "map Version (NewMigrator [example_migration (- 1)]) = [- 1, 0]
   \<and> Name (hd (NewMigrator [example_migration (- 1)])) = ''m''"
  by code_simp

text \<open>
  C7, amended: for every caller's list whose versions are unique and all greater than 0,
  the normalized list is strictly ascending by version and its first element is the
  zero migration, which has version 0 and name "-".
\<close>

theorem NewMigrator_strictly_ascending:
  fixes migrations :: "'d Migration list"
  assumes "distinct (map Version migrations)"
    and "\<forall>m\<in>set migrations. 0 <s Version m"
  shows "sorted_wrt Less (NewMigrator migrations)
         \<and> hd (NewMigrator migrations) = zeroMigration
         \<and> Version (zeroMigration :: 'd Migration) = 0
         \<and> Name (zeroMigration :: 'd Migration) = ''-''"
proof -
  have "\<forall>m\<in>set migrations. sint (Version (zeroMigration :: 'd Migration)) < sint (Version m)"
    using assms(2) by (simp add: zeroMigration_def word_sless_alt)
  then have hd: "NewMigrator migrations = zeroMigration # sortMigrations migrations"
    unfolding NewMigrator_def sortMigrations_def by (rule sort_key_snoc_least)
  have "Version (zeroMigration :: 'd Migration) \<notin> Version ` set migrations"
    using assms(2) by (auto simp: zeroMigration_def)
  with assms(1) have "distinct (map Version (migrations @ [zeroMigration]))"
    by simp
  then have "distinct (map Version (NewMigrator migrations))"
    unfolding NewMigrator_def by (simp only: sortMigrations_distinct)
  moreover have "sorted (map (\<lambda>m. sint (Version m)) (NewMigrator migrations))"
    unfolding NewMigrator_def by (rule sortMigrations_sorted)
  ultimately have "sorted_wrt Less (NewMigrator migrations)"
    by (simp only: sorted_wrt_Less_iff)
  with hd show ?thesis
    by (simp add: zeroMigration_def)
qed

theorem NewMigrator_strictly_ascending_witness:
  "sorted_wrt Less (NewMigrator [example_migration 3, example_migration 1])
   \<and> hd (NewMigrator [example_migration 3, example_migration 1]) = zeroMigration
   \<and> Version (zeroMigration :: unit Migration) = 0
   \<and> Name (zeroMigration :: unit Migration) = ''-''"
proof -
  have "distinct (map Version [example_migration 3, example_migration 1])"
    by (simp add: example_migration_def)
  moreover have "\<forall>m\<in>set [example_migration 3, example_migration 1]. 0 <s Version m"
    by (simp add: example_migration_def word_sless_alt)
  ultimately show ?thesis
    by (rule NewMigrator_strictly_ascending)
qed

section \<open>Correlation\<close>

lemma correlate_loop_suffix:
  "correlate_loop applied actual i j correlated =
     (case correlate_list (drop i applied) (drop j actual) of
        (out, e) \<Rightarrow> (correlated @ out, e))"
proof (induction applied actual i j correlated rule: correlate_loop.induct)
  case (1 applied actual i j correlated)
  show ?case
  proof (cases "i < length applied")
    case False
    then show ?thesis
      by (simp add: correlate_loop.simps [of applied actual i j])
  next
    case i: True
    then have di: "drop i applied = applied ! i # drop (Suc i) applied"
      by (simp add: Cons_nth_drop_Suc)
    show ?thesis
    proof (cases "j < length actual")
      case False
      with i di show ?thesis
        by (simp add: correlate_loop.simps [of applied actual i j])
    next
      case j: True
      then have dj: "drop j actual = actual ! j # drop (Suc j) actual"
        by (simp add: Cons_nth_drop_Suc)
      show ?thesis
      proof (cases "Less (applied ! i) (actual ! j)")
        case True
        with i j di dj show ?thesis
          by (simp add: correlate_loop.simps [of applied actual i j])
      next
        case nl: False
        show ?thesis
        proof (cases "Less (actual ! j) (applied ! i)")
          case True
          with i j nl have "correlate_loop applied actual i j correlated
              = correlate_loop applied actual i (j + 1) correlated"
            by (simp add: correlate_loop.simps [of applied actual i j])
          also have "\<dots> = (case correlate_list (drop i applied) (drop (j + 1) actual) of
              (out, e) \<Rightarrow> (correlated @ out, e))"
            using "1.IH"(1) i j nl True by simp
          finally show ?thesis
            using di dj nl True by simp
        next
          case False
          with i j nl have "correlate_loop applied actual i j correlated
              = correlate_loop applied actual (i + 1) (j + 1) (correlated @ [actual ! j])"
            by (simp add: correlate_loop.simps [of applied actual i j])
          also have "\<dots> = (case correlate_list (drop (i + 1) applied) (drop (j + 1) actual) of
              (out, e) \<Rightarrow> ((correlated @ [actual ! j]) @ out, e))"
            using "1.IH"(2) i j nl False by simp
          finally show ?thesis
            using di dj nl False by (simp split: prod.splits)
        qed
      qed
    qed
  qed
qed

lemma correlateMigrations_list:
  "correlateMigrations applied actual = correlate_list applied actual"
  by (simp add: correlateMigrations_def correlate_loop_suffix)

lemma Less_iff: "Less a b \<longleftrightarrow> sint (Version a) < sint (Version b)"
  by (simp add: Less_def CompareMigrations_def word_sless_alt)

lemma not_Less_both: "\<not> Less a b \<Longrightarrow> \<not> Less b a \<Longrightarrow> Version a = Version b"
  by (simp add: Less_iff sint_eq_iff [symmetric])

lemma Less_version_neq: "Less a b \<Longrightarrow> Version a \<noteq> Version b"
  by (auto simp: Less_iff)

lemma Less_trans: "Less a b \<Longrightarrow> Less b c \<Longrightarrow> Less a c"
  by (simp add: Less_iff)

lemma correlate_list_error:
  "snd (correlate_list xs ys) \<noteq> None \<Longrightarrow>
     snd (correlate_list xs ys) = Some ErrorSomeMigrationsAreAbsent \<and> fst (correlate_list xs ys) \<noteq> []"
  by (induction xs ys rule: correlate_list.induct) (auto split: prod.splits if_splits)

lemma correlate_list_pairs:
  "snd (correlate_list xs ys) = None \<Longrightarrow>
     list_all2 (\<lambda>a c. c \<in> set ys \<and> Version c = Version a) xs (fst (correlate_list xs ys))"
proof (induction xs ys rule: correlate_list.induct)
  case (3 a as b bs)
  show ?case
  proof (cases "Less a b")
    case True
    with 3 show ?thesis by simp
  next
    case nl: False
    show ?thesis
    proof (cases "Less b a")
      case True
      with nl 3 have "list_all2 (\<lambda>a c. c \<in> set bs \<and> Version c = Version a) (a # as)
          (fst (correlate_list (a # as) bs))"
        by simp
      then have "list_all2 (\<lambda>a c. c \<in> set (b # bs) \<and> Version c = Version a) (a # as)
          (fst (correlate_list (a # as) bs))"
        by (rule list_all2_mono) simp
      with nl True show ?thesis by simp
    next
      case False
      with nl 3 have "list_all2 (\<lambda>a c. c \<in> set bs \<and> Version c = Version a) as
          (fst (correlate_list as bs))"
        by (simp split: prod.splits)
      then have "list_all2 (\<lambda>a c. c \<in> set (b # bs) \<and> Version c = Version a) as
          (fst (correlate_list as bs))"
        by (rule list_all2_mono) simp
      with nl False not_Less_both [OF nl False] show ?thesis
        by (auto split: prod.splits)
    qed
  qed
qed simp_all


lemma correlate_list_success_iff:
  "sorted_wrt Less xs \<Longrightarrow> sorted_wrt Less ys \<Longrightarrow>
     snd (correlate_list xs ys) = None \<longleftrightarrow> Version ` set xs \<subseteq> Version ` set ys"
proof (induction xs ys rule: correlate_list.induct)
  case (3 a as b bs)
  from 3(3) have a_as: "\<forall>x\<in>set as. Less a x" and s_as: "sorted_wrt Less as"
    by simp_all
  from 3(4) have b_bs: "\<forall>y\<in>set bs. Less b y" and s_bs: "sorted_wrt Less bs"
    by simp_all
  show ?case
  proof (cases "Less a b")
    case True
    with b_bs have "\<forall>y\<in>set (b # bs). Less a y"
      by (auto intro: Less_trans)
    then have "Version a \<notin> Version ` set (b # bs)"
      by (auto dest: Less_version_neq)
    with True show ?thesis by simp
  next
    case nl: False
    show ?thesis
    proof (cases "Less b a")
      case True
      with a_as have "\<forall>x\<in>set (a # as). Less b x"
        by (auto intro: Less_trans)
      then have "Version b \<notin> Version ` set (a # as)"
        by (auto dest: Less_version_neq)
      from subset_insert [OF this, of "Version ` set bs"]
      have "Version ` set (a # as) \<subseteq> Version ` set (b # bs)
          \<longleftrightarrow> Version ` set (a # as) \<subseteq> Version ` set bs"
        by simp
      with nl True "3.IH"(1) [OF nl True "3.prems"(1) s_bs] show ?thesis
        by simp
    next
      case False
      have eq: "Version a = Version b"
        using nl False by (rule not_Less_both)
      from a_as eq have "Version b \<notin> Version ` set as"
        by (metis Less_version_neq imageE)
      then have "Version ` set (a # as) \<subseteq> Version ` set (b # bs)
          \<longleftrightarrow> Version ` set as \<subseteq> Version ` set bs"
        using eq by (simp add: subset_insert)
      with nl False "3.IH"(2) [OF nl False s_as s_bs] show ?thesis
        by (cases "correlate_list as bs") simp
    qed
  qed
qed simp_all

lemma correlate_list_first_absent:
  "sorted_wrt Less xs \<Longrightarrow> sorted_wrt Less ys \<Longrightarrow> snd (correlate_list xs ys) \<noteq> None \<Longrightarrow>
     find (\<lambda>a. Version a \<notin> Version ` set ys) xs = Some (last (fst (correlate_list xs ys)))"
proof (induction xs ys rule: correlate_list.induct)
  case (3 a as b bs)
  from 3(3) have a_as: "\<forall>x\<in>set as. Less a x" and s_as: "sorted_wrt Less as"
    by simp_all
  from 3(4) have b_bs: "\<forall>y\<in>set bs. Less b y" and s_bs: "sorted_wrt Less bs"
    by simp_all
  show ?case
  proof (cases "Less a b")
    case True
    with b_bs have "\<forall>y\<in>set (b # bs). Less a y"
      by (auto intro: Less_trans)
    then have "Version a \<notin> Version ` set (b # bs)"
      by (auto dest: Less_version_neq)
    with True show ?thesis by simp
  next
    case nl: False
    show ?thesis
    proof (cases "Less b a")
      case True
      with a_as have "\<forall>x\<in>set (a # as). Less b x"
        by (auto intro: Less_trans)
      then have "\<forall>x\<in>set (a # as). Version x \<noteq> Version b"
        by (metis Less_version_neq)
      then have "find (\<lambda>a. Version a \<notin> Version ` set (b # bs)) (a # as)
          = find (\<lambda>a. Version a \<notin> Version ` set bs) (a # as)"
        by (intro find_cong) auto
      moreover have "find (\<lambda>a. Version a \<notin> Version ` set bs) (a # as)
          = Some (last (fst (correlate_list (a # as) bs)))"
        using "3.IH"(1) [OF nl True "3.prems"(1) s_bs] "3.prems"(3) nl True by simp
      ultimately show ?thesis
        using nl True by simp
    next
      case False
      have eq: "Version a = Version b"
        using nl False by (rule not_Less_both)
      from a_as eq have "\<forall>x\<in>set as. Version x \<noteq> Version b"
        by (metis Less_version_neq)
      then have "find (\<lambda>a. Version a \<notin> Version ` set (b # bs)) as
          = find (\<lambda>a. Version a \<notin> Version ` set bs) as"
        by (intro find_cong) auto
      moreover obtain out e where ce: "correlate_list as bs = (out, e)"
        by (cases "correlate_list as bs")
      moreover have err: "snd (correlate_list as bs) \<noteq> None"
        using "3.prems"(3) nl False by (simp split: prod.splits)
      then have "find (\<lambda>a. Version a \<notin> Version ` set bs) as
          = Some (last (fst (correlate_list as bs)))"
        using "3.IH"(2) [OF nl False s_as s_bs] by simp
      moreover have "fst (correlate_list as bs) \<noteq> []"
        using err by (simp add: correlate_list_error)
      ultimately show ?thesis
        using nl False eq by simp
    qed
  qed
qed simp_all


text \<open>
  C3, as stated, fails on a history that holds a version twice: with history 0, 1, 1
  and known set 0, 1 every applied version is the version of a known migration, and
  \<open>correlateMigrations\<close> returns \<open>ErrorSomeMigrationsAreAbsent\<close> with the plan 0, 1, 1.
\<close>

theorem correlateMigrations_repeated_version_counterexample:
  "Version ` set (map decode (migrations_coll (example_db [0, 1, 1])) :: unit Migration list)
      \<subseteq> Version ` set (NewMigrator [example_migration 1])
   \<and> snd (correlateMigrations (map decode (migrations_coll (example_db [0, 1, 1])))
         (NewMigrator [example_migration 1]))
       = Some ErrorSomeMigrationsAreAbsent
   \<and> map Version (fst (correlateMigrations (map decode (migrations_coll (example_db [0, 1, 1])))
         (NewMigrator [example_migration 1]))) = [0, 1, 1]"
  by code_simp

text \<open>
  C3, amended: for strictly ascending \<open>applied\<close> (no version twice) and strictly ascending
  \<open>actual\<close>, \<open>correlateMigrations\<close> returns no error exactly when every applied version
  is the version of a known migration. On success the output has the length of
  \<open>applied\<close> and holds, position by position, a known migration of the same version. On
  failure the error is \<open>ErrorSomeMigrationsAreAbsent\<close>, the output is not empty, and its
  last element is the first migration of \<open>applied\<close> whose version no known migration has.
\<close>

theorem correlateMigrations_correct:
  assumes "sorted_wrt Less applied" and "sorted_wrt Less actual"
  shows "(snd (correlateMigrations applied actual) = None
            \<longleftrightarrow> Version ` set applied \<subseteq> Version ` set actual)
         \<and> (snd (correlateMigrations applied actual) = None \<longrightarrow>
              length (fst (correlateMigrations applied actual)) = length applied
              \<and> list_all2 (\<lambda>a c. c \<in> set actual \<and> Version c = Version a) applied
                    (fst (correlateMigrations applied actual)))
         \<and> (snd (correlateMigrations applied actual) \<noteq> None \<longrightarrow>
              snd (correlateMigrations applied actual) = Some ErrorSomeMigrationsAreAbsent
              \<and> fst (correlateMigrations applied actual) \<noteq> []
              \<and> find (\<lambda>a. Version a \<notin> Version ` set actual) applied
                  = Some (last (fst (correlateMigrations applied actual))))"
proof (intro conjI impI)
  show "snd (correlateMigrations applied actual) = None
          \<longleftrightarrow> Version ` set applied \<subseteq> Version ` set actual"
    using assms by (simp add: correlateMigrations_list correlate_list_success_iff)
next
  assume ok: "snd (correlateMigrations applied actual) = None"
  then show pairs: "list_all2 (\<lambda>a c. c \<in> set actual \<and> Version c = Version a) applied
      (fst (correlateMigrations applied actual))"
    by (simp add: correlateMigrations_list correlate_list_pairs)
  then show "length (fst (correlateMigrations applied actual)) = length applied"
    by (simp add: list_all2_lengthD)
next
  assume err: "snd (correlateMigrations applied actual) \<noteq> None"
  then show "snd (correlateMigrations applied actual) = Some ErrorSomeMigrationsAreAbsent"
    and "fst (correlateMigrations applied actual) \<noteq> []"
    by (simp_all add: correlateMigrations_list correlate_list_error)
  show "find (\<lambda>a. Version a \<notin> Version ` set actual) applied
      = Some (last (fst (correlateMigrations applied actual)))"
    using assms err by (simp add: correlateMigrations_list correlate_list_first_absent)
qed

theorem correlateMigrations_correct_witness:
  "snd (correlateMigrations (map decode (migrations_coll (example_db [0, 1])))
          (NewMigrator [example_migration 2, example_migration 1])) = None
   \<and> length (fst (correlateMigrations (map decode (migrations_coll (example_db [0, 1])))
          (NewMigrator [example_migration 2, example_migration 1]))) = 2
   \<and> snd (correlateMigrations (map decode (migrations_coll (example_db [0, 1, 2, 3])))
          (NewMigrator [example_migration 1, example_migration 3]))
       = Some ErrorSomeMigrationsAreAbsent
   \<and> find (\<lambda>a. Version a \<notin> Version ` set (NewMigrator [example_migration 1, example_migration 3]))
         (map decode (migrations_coll (example_db [0, 1, 2, 3])))
       = Some (last (fst (correlateMigrations
           (map decode (migrations_coll (example_db [0, 1, 2, 3])))
           (NewMigrator [example_migration 1, example_migration 3]))))"
proof -
  let ?A = "map decode (migrations_coll (example_db [0, 1])) :: unit Migration list"
  let ?K = "NewMigrator [example_migration 2, example_migration 1]"
  let ?B = "map decode (migrations_coll (example_db [0, 1, 2, 3])) :: unit Migration list"
  let ?L = "NewMigrator [example_migration 1, example_migration 3]"
  have A: "sorted_wrt Less ?A" and K: "sorted_wrt Less ?K"
    and B: "sorted_wrt Less ?B" and L: "sorted_wrt Less ?L"
    by code_simp+
  have sub: "Version ` set ?A \<subseteq> Version ` set ?K"
    by code_simp
  have nsub: "\<not> Version ` set ?B \<subseteq> Version ` set ?L"
    by code_simp
  from correlateMigrations_correct [OF A K] sub
  have "snd (correlateMigrations ?A ?K) = None
      \<and> length (fst (correlateMigrations ?A ?K)) = length ?A"
    by blast
  moreover from correlateMigrations_correct [OF B L] nsub
  have "snd (correlateMigrations ?B ?L) = Some ErrorSomeMigrationsAreAbsent
      \<and> find (\<lambda>a. Version a \<notin> Version ` set ?L) ?B
          = Some (last (fst (correlateMigrations ?B ?L)))"
    by blast
  ultimately show ?thesis
    by (simp add: example_db_def)
qed

section \<open>Merging a history that is fully applied\<close>

lemma ascending_nth_le:
  "sorted (map (\<lambda>m. sint (Version m)) xs) \<Longrightarrow> j \<le> i \<Longrightarrow> i < length xs \<Longrightarrow>
     sint (Version (xs ! j)) \<le> sint (Version (xs ! i))"
  using sorted_nth_mono [of "map (\<lambda>m. sint (Version m)) xs" j i] by simp

lemma ascending_drop_le:
  assumes "sorted (map (\<lambda>m. sint (Version m)) xs)" and "x \<in> set (drop i xs)"
  shows "sint (Version (xs ! i)) \<le> sint (Version x)"
proof -
  from assms(2) obtain k where k: "k < length xs - i" and x: "x = xs ! (i + k)"
    by (auto simp: in_set_conv_nth)
  with assms(1) show ?thesis
    by (simp add: ascending_nth_le)
qed

lemma strictly_ascending_drop_Less:
  assumes "sorted_wrt Less ys" and "y \<in> set (drop (Suc j) ys)"
  shows "Less (ys ! j) y"
proof -
  from assms(2) obtain k where k: "k < length ys - Suc j" and y: "y = ys ! (Suc j + k)"
    by (auto simp: in_set_conv_nth)
  with assms(1) show ?thesis
    by (simp add: sorted_wrt_iff_nth_less)
qed

lemma merge_loop2_set: "set (merge_loop2 applied i merged) \<subseteq> set merged \<union> set applied"
proof (induction applied i merged rule: merge_loop2.induct)
  case (1 applied i merged)
  show ?case
  proof (cases "i < length applied")
    case True
    with 1 show ?thesis
      by (subst merge_loop2.simps) auto
  next
    case False
    then show ?thesis
      by (subst merge_loop2.simps) simp
  qed
qed

lemma merge_loop3_stop:
  "j = length actual \<or> \<not> Version (actual ! j) <s mx \<Longrightarrow> j \<le> length actual \<Longrightarrow> merge_loop3 actual mx j merged = merged"
  by (subst merge_loop3.simps) auto

lemma cover_step:
  assumes cover: "Version ` set (drop j actual) \<subseteq> Version ` set (drop i applied)"
    and i: "i < length applied"
    and sub: "set (drop j' actual) \<subseteq> set (drop j actual)"
    and neq: "\<forall>y\<in>set (drop j' actual). Version y \<noteq> Version (applied ! i)"
  shows "Version ` set (drop j' actual) \<subseteq> Version ` set (drop (i + 1) applied)"
proof
  fix v
  assume "v \<in> Version ` set (drop j' actual)"
  then obtain y where y: "y \<in> set (drop j' actual)" and v: "v = Version y"
    by auto
  from y sub cover have "Version y \<in> Version ` set (drop i applied)"
    by auto
  moreover from i have "drop i applied = applied ! i # drop (i + 1) applied"
    by (simp add: Cons_nth_drop_Suc)
  moreover from y neq have "Version y \<noteq> Version (applied ! i)"
    by simp
  ultimately show "v \<in> Version ` set (drop (i + 1) applied)"
    using v by auto
qed

lemma merge_loop1_covered:
  "sorted (map (\<lambda>m. sint (Version m)) applied) \<Longrightarrow> sorted_wrt Less actual \<Longrightarrow>
   j \<le> i \<Longrightarrow> j \<le> length actual \<Longrightarrow>
   Version ` set (drop j actual) \<subseteq> Version ` set (drop i applied) \<Longrightarrow>
   set merged \<subseteq> set applied \<Longrightarrow>
   \<exists>i' j' merged'. merge_loop1 applied actual mx i j merged = Some (i', j', merged')
      \<and> set merged' \<subseteq> set applied \<and> j' \<le> length actual
      \<and> (j' = length actual \<or> \<not> Version (actual ! j') <s mx)"
proof (induction applied actual mx i j merged rule: merge_loop1.induct)
  case (1 applied actual mx i j merged)
  note asc = "1.prems"(1) and strict = "1.prems"(2) and ji = "1.prems"(3)
    and jl = "1.prems"(4) and cover = "1.prems"(5) and merged = "1.prems"(6)
  from strict have asc_actual: "sorted (map (\<lambda>m. sint (Version m)) actual)"
    by (simp add: sorted_wrt_Less_iff)
  show ?case
  proof (cases "i < length applied \<and> j < length actual
      \<and> (length actual = 0 \<or> Version (actual ! j) <s mx)")
    case False
    have "j = length actual \<or> \<not> Version (actual ! j) <s mx"
    proof (cases "j < length actual")
      case True
      then have "set (drop j actual) \<noteq> {}"
        by simp
      with cover have "set (drop i applied) \<noteq> {}"
        by auto
      then have "i < length applied"
        by simp
      with False True show ?thesis
        by simp
    next
      case False
      with jl show ?thesis by simp
    qed
    with False jl merged show ?thesis
      by (subst merge_loop1.simps) auto
  next
    case guard: True
    then have i: "i < length applied" and j: "j < length actual"
      by simp_all
    have aj: "actual ! j \<in> set (drop j actual)"
      using j by (simp add: Cons_nth_drop_Suc [symmetric])
    have ai: "applied ! i \<in> set applied"
      using i by simp
    show ?thesis
    proof (cases "Less (applied ! i) (actual ! j)")
      case True
      have "\<forall>y\<in>set (drop j actual). Version y \<noteq> Version (applied ! i)"
      proof
        fix y
        assume "y \<in> set (drop j actual)"
        with asc_actual have "sint (Version (actual ! j)) \<le> sint (Version y)"
          by (rule ascending_drop_le)
        with True show "Version y \<noteq> Version (applied ! i)"
          by (auto simp: Less_iff)
      qed
      with cover i have "Version ` set (drop j actual) \<subseteq> Version ` set (drop (i + 1) applied)"
        by (intro cover_step [where j = j]) auto
      with "1.IH"(1) [OF guard True asc strict _ jl] ji merged ai
      have "\<exists>i' j' merged'.
          merge_loop1 applied actual mx (i + 1) j (merged @ [applied ! i]) = Some (i', j', merged')
          \<and> set merged' \<subseteq> set applied \<and> j' \<le> length actual
          \<and> (j' = length actual \<or> \<not> Version (actual ! j') <s mx)"
        by simp
      with guard True show ?thesis
        by (subst merge_loop1.simps) simp
    next
      case nl: False
      from aj cover obtain x where x: "x \<in> set (drop i applied)"
        and vx: "Version (actual ! j) = Version x"
        by auto
      from asc x have "sint (Version (applied ! i)) \<le> sint (Version x)"
        by (rule ascending_drop_le)
      with nl vx have eq: "Version (actual ! j) = Version (applied ! i)"
        by (simp add: Less_iff sint_eq_iff [symmetric])
      from ji i have jlen: "j < length applied"
        by simp
      from asc ji i have "sint (Version (applied ! j)) \<le> sint (Version (applied ! i))"
        by (rule ascending_nth_le)
      with eq have nl2: "\<not> Less (actual ! j) (applied ! j)"
        by (simp add: Less_iff)
      have "\<forall>y\<in>set (drop (j + 1) actual). Version y \<noteq> Version (applied ! i)"
      proof
        fix y
        assume "y \<in> set (drop (j + 1) actual)"
        with strict have "Less (actual ! j) y"
          by (simp add: strictly_ascending_drop_Less)
        with eq show "Version y \<noteq> Version (applied ! i)"
          by (auto simp: Less_iff)
      qed
      moreover have "set (drop (j + 1) actual) \<subseteq> set (drop j actual)"
        by (simp add: set_drop_subset_set_drop)
      ultimately have "Version ` set (drop (j + 1) actual)
          \<subseteq> Version ` set (drop (i + 1) applied)"
        using cover i by (intro cover_step [where j = j]) 
      with "1.IH"(3) [OF guard nl jlen nl2 asc strict] ji j merged ai
      have "\<exists>i' j' merged'.
          merge_loop1 applied actual mx (i + 1) (j + 1) (merged @ [applied ! i])
            = Some (i', j', merged')
          \<and> set merged' \<subseteq> set applied \<and> j' \<le> length actual
          \<and> (j' = length actual \<or> \<not> Version (actual ! j') <s mx)"
        by simp
      with guard nl jlen nl2 show ?thesis
        by (subst merge_loop1.simps) simp
    qed
  qed
qed


lemma ascending_iff:
  fixes xs :: "'d Migration list"
  shows "sorted_wrt (\<lambda>a b. \<not> Less b a) xs \<longleftrightarrow> sorted (map (\<lambda>m. sint (Version m)) xs)"
proof -
  have "(\<lambda>a b :: 'd Migration. \<not> Less b a) = (\<lambda>a b. sint (Version a) \<le> sint (Version b))"
    by (intro ext) (auto simp: Less_iff)
  then show ?thesis
    by (simp add: sorted_map)
qed

lemma Up_loop_all_stored:
  "\<forall>m\<in>set merged. Stored m \<Longrightarrow> Up_loop merged old new db = (Some (old, new, None), db)"
  by (induction merged) simp_all

text \<open>
  C9. Let \<open>actual\<close> be strictly ascending, and let \<open>applied\<close> be ascending, all stored, and
  hold every version of \<open>actual\<close>. Then the merge with no target (-1) returns, without
  an out-of-range read, a sequence with no item that is not stored, and the loop of
  \<open>up\<close> over it runs no body, stores nothing and leaves the versions as they are.
\<close>

theorem mergeMigrations_idempotent:
  assumes "sorted_wrt (\<lambda>a b. \<not> Less b a) applied"
    and "sorted_wrt Less actual"
    and "\<forall>m\<in>set applied. Stored m"
    and "Version ` set actual \<subseteq> Version ` set applied"
  shows "\<exists>merged. mergeMigrations applied actual (- 1) = Some merged
           \<and> filter (\<lambda>m. \<not> Stored m) merged = []
           \<and> (\<forall>old new db. Up_loop merged old new db = (Some (old, new, None), db))"
proof -
  let ?mx = "mergeMax actual (- 1)"
  from assms(1) have "sorted (map (\<lambda>m. sint (Version m)) applied)"
    by (simp add: ascending_iff)
  from merge_loop1_covered [OF this assms(2), of 0 0 "[]" ?mx] assms(4)
  obtain i' j' merged' where
    l1: "merge_loop1 applied actual ?mx 0 0 [] = Some (i', j', merged')"
    and sub: "set merged' \<subseteq> set applied"
    and stop: "j' \<le> length actual" "j' = length actual \<or> \<not> Version (actual ! j') <s ?mx"
    by auto
  let ?merged = "merge_loop2 applied i' merged'"
  have res: "mergeMigrations applied actual (- 1) = Some ?merged"
    using l1 stop by (simp add: mergeMigrations_def merge_loop3_stop)
  have "set ?merged \<subseteq> set applied"
    using merge_loop2_set [of applied i' merged'] sub by auto
  with assms(3) have stored: "\<forall>m\<in>set ?merged. Stored m"
    by auto
  then have "filter (\<lambda>m. \<not> Stored m) ?merged = []"
    by (simp add: filter_empty_conv)
  with res stored show ?thesis
    by (simp add: Up_loop_all_stored)
qed

theorem mergeMigrations_idempotent_witness:
  "\<exists>merged. mergeMigrations (map decode (migrations_coll (example_db [0, 1, 2])))
       (NewMigrator [example_migration 2, example_migration 1]) (- 1) = Some merged
     \<and> filter (\<lambda>m. \<not> Stored m) merged = []"
proof -
  let ?A = "map decode (migrations_coll (example_db [0, 1, 2])) :: unit Migration list"
  let ?K = "NewMigrator [example_migration 2, example_migration 1]"
  have "sorted_wrt (\<lambda>a b. \<not> Less b a) ?A" and "sorted_wrt Less ?K"
    and "\<forall>m\<in>set ?A. Stored m" and "Version ` set ?K \<subseteq> Version ` set ?A"
    by code_simp+
  from mergeMigrations_idempotent [OF this] show ?thesis
    by blast
qed

section \<open>The command set_version\<close>

lemma driver_op_no_faults: "faults db = [] \<Longrightarrow> driver_op db = (None, db)"
  by (simp add: driver_op_def)

lemma case_rev_last:
  "xs \<noteq> [] \<Longrightarrow> (case rev xs of [] \<Rightarrow> a | d # ds \<Rightarrow> f d) = f (last xs)"
  by (cases xs rule: rev_cases) auto

lemma Version_initialized:
  assumes "faults db = []" and "migrations_coll db \<noteq> []"
  shows "Migrator_Version m db =
           ((version (last (sort_key (\<lambda>d. sint (version d)) (migrations_coll db))),
             version (last (sort_key (\<lambda>d. sint (version d)) (migrations_coll db))), None), db)"
proof -
  let ?docs = "sort_key (\<lambda>d. sint (version d)) (migrations_coll db)"
  from assms(2) have "?docs \<noteq> []"
    by (metis length_sort length_0_conv)
  then have "FindOne_latest db = (Inr (last ?docs), db)"
    using assms(1) by (simp add: FindOne_latest_def driver_op_no_faults case_rev_last)
  then show ?thesis
    by (simp add: Migrator_Version_def)
qed

lemma SetVersion_loop_absent:
  "target \<notin> Version ` set m \<Longrightarrow> fst (SetVersion_loop m target i migs) = - 1"
  by (induction m arbitrary: i migs) auto

lemma SetVersion_loop_present:
  "target \<in> Version ` set m \<Longrightarrow>
     \<exists>k<length m. SetVersion_loop m target i migs = (int (i + k), migs @ take (Suc k) m)
        \<and> Version (m ! k) = target"
proof (induction m arbitrary: i migs)
  case Nil
  then show ?case by simp
next
  case (Cons x xs)
  show ?case
  proof (cases "Version x = target")
    case True
    then show ?thesis by auto
  next
    case False
    with Cons.prems have "target \<in> Version ` set xs"
      by auto
    from Cons.IH [OF this, of "i + 1" "migs @ [x]"]
    obtain k where "k < length xs"
      and "SetVersion_loop xs target (i + 1) (migs @ [x])
             = (int (i + 1 + k), (migs @ [x]) @ take (Suc k) xs)"
      and "Version (xs ! k) = target"
      by blast
    with False have "Suc k < length (x # xs)
        \<and> SetVersion_loop (x # xs) target i migs = (int (i + Suc k), migs @ take (Suc (Suc k)) (x # xs))
        \<and> Version ((x # xs) ! Suc k) = target"
      by simp
    then show ?thesis by blast
  qed
qed

lemma take_Suc_filter:
  assumes "sorted_wrt Less m" and "k < length m"
  shows "take (Suc k) m = filter (\<lambda>x. \<not> Version (m ! k) <s Version x) m"
proof -
  have "\<forall>x\<in>set (take (Suc k) m). \<not> Version (m ! k) <s Version x"
  proof
    fix x
    assume "x \<in> set (take (Suc k) m)"
    then obtain i where "i < Suc k" and "i < length m" and x: "x = m ! i"
      by (auto simp: in_set_conv_nth)
    then have "i = k \<or> i < k"
      by auto
    then have "i = k \<or> Less (m ! i) (m ! k)"
      using assms by (auto simp: sorted_wrt_iff_nth_less)
    with x show "\<not> Version (m ! k) <s Version x"
      by (auto simp: Less_iff word_sless_alt)
  qed
  then have "filter (\<lambda>x. \<not> Version (m ! k) <s Version x) (take (Suc k) m) = take (Suc k) m"
    by (simp add: filter_id_conv)
  moreover have "\<forall>x\<in>set (drop (Suc k) m). Version (m ! k) <s Version x"
    using assms(1) strictly_ascending_drop_Less [of m _ k]
    by (auto simp: Less_def CompareMigrations_def)
  then have "filter (\<lambda>x. \<not> Version (m ! k) <s Version x) (drop (Suc k) m) = []"
    by (simp add: filter_empty_conv)
  ultimately have "filter (\<lambda>x. \<not> Version (m ! k) <s Version x) (take (Suc k) m @ drop (Suc k) m)
      = take (Suc k) m"
    by (simp only: filter_append append_Nil2)
  then show ?thesis
    by simp
qed

text \<open>
  C8. Let the known set be strictly ascending, the collection not empty and the driver
  without failure, and let \<open>old\<close> be the version that the command \<open>version\<close> returns. If
  the target is the version of a known migration, \<open>set_version\<close> returns \<open>old\<close> and the
  target, and the collection then holds exactly one record for each known migration of
  version at most the target, all earlier records being dropped; nothing else of the
  database changes, so that no body runs; when the target is \<open>old\<close> the database is left
  as it is. If the target is not a known version the error is
  \<open>ErrorTargetVersionNotFound\<close> and the database is left as it is.
\<close>

theorem SetVersion_correct:
  assumes "sorted_wrt Less m"
    and "migrations_coll db \<noteq> []"
    and "faults db = []"
  shows "\<exists>old. Migrator_Version m db = ((old, old, None), db)
           \<and> (if target \<in> Version ` set m then
                 (if target = old then
                    Migrator_SetVersion m db target = ((old, old, None), db)
                  else
                    Migrator_SetVersion m db target =
                      ((old, target, None),
                       db\<lparr>migrations_coll :=
                            map encode (filter (\<lambda>k. \<not> target <s Version k) m)\<rparr>))
               else
                 Migrator_SetVersion m db target =
                   ((old, 0, Some ErrorTargetVersionNotFound), db))"
proof -
  let ?old = "version (last (sort_key (\<lambda>d. sint (version d)) (migrations_coll db)))"
  have v: "Migrator_Version m db = ((?old, ?old, None), db)"
    using assms(3,2) by (rule Version_initialized)
  have "if target \<in> Version ` set m then
          (if target = ?old then
             Migrator_SetVersion m db target = ((?old, ?old, None), db)
           else
             Migrator_SetVersion m db target =
               ((?old, target, None),
                db\<lparr>migrations_coll := map encode (filter (\<lambda>k. \<not> target <s Version k) m)\<rparr>))
        else
          Migrator_SetVersion m db target = ((?old, 0, Some ErrorTargetVersionNotFound), db)"
  proof (cases "target \<in> Version ` set m")
    case False
    then have "fst (SetVersion_loop m target 0 []) = - 1"
      by (rule SetVersion_loop_absent)
    then obtain migs where "SetVersion_loop m target 0 [] = (- 1, migs)"
      by (cases "SetVersion_loop m target 0 []") auto
    with v False show ?thesis
      by (simp add: Migrator_SetVersion_def)
  next
    case True
    from SetVersion_loop_present [OF this, of 0 "[]"]
    obtain k where k: "k < length m"
      and loop: "SetVersion_loop m target 0 [] = (int k, take (Suc k) m)"
      and vk: "Version (m ! k) = target"
      by auto
    have migs: "take (Suc k) m = filter (\<lambda>x. \<not> target <s Version x) m"
      using take_Suc_filter [OF assms(1) k] vk by simp
    have lastv: "Version (take (Suc k) m ! (length (take (Suc k) m) - 1)) = target"
      using k vk by (simp add: min_absorb2)
    have "Migrator_SetVersion m db target =
        (if ?old = target then ((?old, ?old, None), db)
         else ((?old, target, None), db\<lparr>migrations_coll := map encode (take (Suc k) m)\<rparr>))"
      unfolding Migrator_SetVersion_def v loop
      using vk lastv assms(3)
      by (simp add: Drop_def InsertMany_def driver_op_no_faults)
    with True migs show ?thesis
      by auto
  qed
  with v show ?thesis
    by blast
qed


theorem SetVersion_correct_witness:
  "Migrator_Version (NewMigrator [example_migration 1, example_migration 2, example_migration 3])
       (example_db [0, 1]) = ((1, 1, None), example_db [0, 1])
   \<and> Migrator_SetVersion
         (NewMigrator [example_migration 1, example_migration 2, example_migration 3])
         (example_db [0, 1]) 2
       = ((1, 2, None),
          (example_db [0, 1])\<lparr>migrations_coll :=
             [\<lparr>version = 0, name = ''-''\<rparr>, \<lparr>version = 1, name = ''m''\<rparr>,
              \<lparr>version = 2, name = ''m''\<rparr>]\<rparr>)
   \<and> Migrator_SetVersion
         (NewMigrator [example_migration 1, example_migration 2, example_migration 3])
         (example_db [0, 1]) 1
       = ((1, 1, None), example_db [0, 1])
   \<and> Migrator_SetVersion
         (NewMigrator [example_migration 1, example_migration 2, example_migration 3])
         (example_db [0, 1]) 5
       = ((1, 0, Some ErrorTargetVersionNotFound), example_db [0, 1])"
proof -
  let ?K = "NewMigrator [example_migration 1, example_migration 2, example_migration 3]"
  let ?db = "example_db [0, 1]"
  have K: "sorted_wrt Less ?K"
    by code_simp
  have db: "migrations_coll ?db \<noteq> []" "faults ?db = []"
    by (simp_all add: example_db_def)
  have v: "Migrator_Version ?K ?db = ((1, 1, None), ?db)"
    by (simp add: Migrator_Version_def FindOne_latest_def driver_op_def example_db_def)
  have t: "2 \<in> Version ` set ?K" "1 \<in> Version ` set ?K" "5 \<notin> Version ` set ?K"
    by code_simp+
  have f: "map encode (filter (\<lambda>k. \<not> 2 <s Version k) ?K)
      = [\<lparr>version = 0, name = ''-''\<rparr>, \<lparr>version = 1, name = ''m''\<rparr>,
         \<lparr>version = 2, name = ''m''\<rparr>]"
    by code_simp
  from SetVersion_correct [OF K db, of 2] v t f
  have "Migrator_SetVersion ?K ?db 2
      = ((1, 2, None),
         ?db\<lparr>migrations_coll :=
             [\<lparr>version = 0, name = ''-''\<rparr>, \<lparr>version = 1, name = ''m''\<rparr>,
              \<lparr>version = 2, name = ''m''\<rparr>]\<rparr>)"
    by auto
  moreover from SetVersion_correct [OF K db, of 1] v t
  have "Migrator_SetVersion ?K ?db 1 = ((1, 1, None), ?db)"
    by auto
  moreover from SetVersion_correct [OF K db, of 5] v t
  have "Migrator_SetVersion ?K ?db 5 = ((1, 0, Some ErrorTargetVersionNotFound), ?db)"
    by auto
  ultimately show ?thesis
    using v by simp
qed

section \<open>The command reset on a history with absent code\<close>

text \<open>
  C6, as stated, fails: with history 0, 1, 2, 3 and known set 0, 1, 3 the first absent
  version is 2, the last element of the partial plan of \<open>correlateMigrations\<close>, and
  \<open>reset\<close> returns the new version 3.
\<close>

theorem Reset_absent_newVersion_counterexample:
  "fst (Migrator_Reset (NewMigrator [example_migration 1, example_migration 3])
          (example_db [0, 1, 2, 3]))
     = Some (3, 3, Some ErrorSomeMigrationsAreAbsent)
   \<and> map Version (fst (correlateMigrations
         (map decode (migrations_coll (example_db [0, 1, 2, 3])))
         (NewMigrator [example_migration 1, example_migration 3]))) = [0, 1, 2]"
  by code_simp

lemma Find_no_faults:
  "faults db = [] \<Longrightarrow>
     Find db = (Inr (sort_key (\<lambda>d. sint (version d)) (migrations_coll db)), db)"
  by (simp add: Find_def driver_op_no_faults)

lemma Version_decode [simp]: "Version (decode d) = version d"
  by (simp add: decode_def)

lemma correlate_list_success_subset:
  assumes "snd (correlate_list xs ys) = None"
  shows "Version ` set xs \<subseteq> Version ` set ys"
proof
  fix v
  assume "v \<in> Version ` set xs"
  then obtain k where k: "k < length xs" and v: "v = Version (xs ! k)"
    by (auto simp: in_set_conv_nth)
  from assms have "list_all2 (\<lambda>a c. c \<in> set ys \<and> Version c = Version a) xs
      (fst (correlate_list xs ys))"
    by (rule correlate_list_pairs)
  with k have "fst (correlate_list xs ys) ! k \<in> set ys
      \<and> Version (fst (correlate_list xs ys) ! k) = Version (xs ! k)"
    by (simp add: list_all2_conv_all_nth)
  then have "Version (xs ! k) \<in> Version ` set ys"
    by (metis imageI)
  with v show "v \<in> Version ` set ys"
    by simp
qed

lemma sorted_docs_strict:
  assumes "distinct (map version coll)"
  shows "sorted_wrt Less (map decode (sort_key (\<lambda>d. sint (version d)) coll) :: 'd Migration list)"
proof -
  let ?docs = "sort_key (\<lambda>d. sint (version d)) coll"
  have "map (\<lambda>m :: 'd Migration. sint (Version m)) (map decode ?docs)
      = map (\<lambda>d. sint (version d)) ?docs"
    by simp
  then have "sorted (map (\<lambda>m :: 'd Migration. sint (Version m)) (map decode ?docs))"
    by (simp only: sorted_sort_key)
  moreover have "distinct (map (\<lambda>d. sint (version d)) ?docs)"
    using assms by (simp add: map_sort_key distinct_map inj_on_def sint_eq_iff)
  then have "distinct (map version ?docs)"
    by (simp add: distinct_map inj_on_def sint_eq_iff)
  then have "distinct (map Version (map decode ?docs :: 'd Migration list))"
    by (simp add: comp_def)
  ultimately show ?thesis
    by (simp only: sorted_wrt_Less_iff)
qed

text \<open>
  C6, amended: when the driver does not fail and some persisted version is the version
  of no known migration, \<open>reset\<close> returns \<open>ErrorSomeMigrationsAreAbsent\<close> with the old
  and the new version both equal to the version that the command \<open>version\<close> returns,
  and it leaves the database as it is: no body runs and no record is deleted. The
  result is that triple alone. The plan that \<open>correlateMigrations\<close> computes inside
  \<open>reset\<close> comes with the same error and is not empty; when no version is persisted
  twice and the known set is strictly ascending, its last element is the first
  persisted migration whose version no known migration has.
\<close>

theorem Reset_absent:
  fixes m :: "'d Migration list"
  assumes "faults db = []"
    and "\<not> version ` set (migrations_coll db) \<subseteq> Version ` set m"
  shows "\<exists>old plan.
      Migrator_Version m db = ((old, old, None), db)
      \<and> Migrator_Reset m db = (Some (old, old, Some ErrorSomeMigrationsAreAbsent), db)
      \<and> correlateMigrations
            (map decode (sort_key (\<lambda>d. sint (version d)) (migrations_coll db))) m
          = (plan, Some ErrorSomeMigrationsAreAbsent)
      \<and> plan \<noteq> []
      \<and> (distinct (map version (migrations_coll db)) \<and> sorted_wrt Less m \<longrightarrow>
           find (\<lambda>a. Version a \<notin> Version ` set m)
             (map decode (sort_key (\<lambda>d. sint (version d)) (migrations_coll db)))
           = Some (last plan))"
proof -
  let ?docs = "sort_key (\<lambda>d. sint (version d)) (migrations_coll db)"
  let ?history = "map decode ?docs :: 'd Migration list"
  let ?old = "version (last ?docs)"
  from assms(2) have ne: "migrations_coll db \<noteq> []"
    by auto
  then have docs: "?docs \<noteq> []"
    by (metis length_sort length_0_conv)
  have v: "Migrator_Version m db = ((?old, ?old, None), db)"
    using assms(1) ne by (rule Version_initialized)
  have "Version ` set ?history = version ` set (migrations_coll db)"
    by (simp add: image_image)
  with assms(2) have err: "snd (correlateMigrations ?history m) \<noteq> None"
    using correlate_list_success_subset [of ?history m]
    by (auto simp: correlateMigrations_list)
  then have "snd (correlateMigrations ?history m) = Some ErrorSomeMigrationsAreAbsent"
    and "fst (correlateMigrations ?history m) \<noteq> []"
    by (simp_all add: correlateMigrations_list correlate_list_error)
  then obtain plan where
    c: "correlateMigrations ?history m = (plan, Some ErrorSomeMigrationsAreAbsent)"
    and plan: "plan \<noteq> []"
    by (cases "correlateMigrations ?history m") auto
  have "length ?docs - 1 < length ?docs"
    using ne by simp
  then have "Version (?history ! (length ?history - 1)) = version (?docs ! (length ?docs - 1))"
    by (simp only: length_map nth_map Version_decode)
  then have "Version (?history ! (length ?history - 1)) = ?old"
    using docs by (simp add: last_conv_nth)
  with docs c
  have reset: "Migrator_Reset m db = (Some (?old, ?old, Some ErrorSomeMigrationsAreAbsent), db)"
    by (simp add: Migrator_Reset_def Find_no_faults [OF assms(1)] Let_def)
  have first: "distinct (map version (migrations_coll db)) \<and> sorted_wrt Less m \<longrightarrow>
      find (\<lambda>a. Version a \<notin> Version ` set m) ?history = Some (last plan)"
  proof
    assume a: "distinct (map version (migrations_coll db)) \<and> sorted_wrt Less m"
    then have "sorted_wrt Less ?history"
      by (simp add: sorted_docs_strict)
    with a err have "find (\<lambda>a. Version a \<notin> Version ` set m) ?history
        = Some (last (fst (correlateMigrations ?history m)))"
      by (simp add: correlateMigrations_list correlate_list_first_absent)
    with c show "find (\<lambda>a. Version a \<notin> Version ` set m) ?history = Some (last plan)"
      by simp
  qed
  have "Migrator_Version m db = ((?old, ?old, None), db)
      \<and> Migrator_Reset m db = (Some (?old, ?old, Some ErrorSomeMigrationsAreAbsent), db)
      \<and> correlateMigrations ?history m = (plan, Some ErrorSomeMigrationsAreAbsent)
      \<and> plan \<noteq> []
      \<and> (distinct (map version (migrations_coll db)) \<and> sorted_wrt Less m \<longrightarrow>
           find (\<lambda>a. Version a \<notin> Version ` set m) ?history = Some (last plan))"
    using v reset c plan first by (intro conjI)
  then show ?thesis
    by (intro exI)
qed

theorem Reset_absent_witness:
  "Migrator_Reset (NewMigrator [example_migration 1, example_migration 3])
       (example_db [0, 1, 2, 3])
     = (Some (3, 3, Some ErrorSomeMigrationsAreAbsent), example_db [0, 1, 2, 3])
   \<and> (\<exists>plan. correlateMigrations
         (map decode (sort_key (\<lambda>d. sint (version d)) (migrations_coll (example_db [0, 1, 2, 3]))))
         (NewMigrator [example_migration 1, example_migration 3])
        = (plan, Some ErrorSomeMigrationsAreAbsent)
      \<and> last plan = decode \<lparr>version = 2, name = ''m''\<rparr>)"
proof -
  let ?K = "NewMigrator [example_migration 1, example_migration 3]"
  let ?db = "example_db [0, 1, 2, 3]"
  let ?history = "map decode (sort_key (\<lambda>d. sint (version d)) (migrations_coll ?db))
      :: unit Migration list"
  have f: "faults ?db = []"
    by (simp add: example_db_def)
  have a: "\<not> version ` set (migrations_coll ?db) \<subseteq> Version ` set ?K"
    by code_simp
  have v: "Migrator_Version ?K ?db = ((3, 3, None), ?db)"
    by (simp add: Migrator_Version_def FindOne_latest_def driver_op_def example_db_def)
  have d: "distinct (map version (migrations_coll ?db))" and K: "sorted_wrt Less ?K"
    by code_simp+
  have vs: "Version ` set ?K = {0, 1, 3}"
    by (auto simp: set_NewMigrator zeroMigration_def example_migration_def)
  have fnd: "find (\<lambda>a. Version a \<notin> Version ` set ?K) ?history
      = Some (decode \<lparr>version = 2, name = ''m''\<rparr>)"
    unfolding vs by (simp add: example_db_def decode_def)
  from Reset_absent [OF f a] obtain old plan where
    "Migrator_Version ?K ?db = ((old, old, None), ?db)"
    and "Migrator_Reset ?K ?db = (Some (old, old, Some ErrorSomeMigrationsAreAbsent), ?db)"
    and c: "correlateMigrations ?history ?K = (plan, Some ErrorSomeMigrationsAreAbsent)"
    and "plan \<noteq> []"
    and "distinct (map version (migrations_coll ?db)) \<and> sorted_wrt Less ?K \<longrightarrow>
           find (\<lambda>a. Version a \<notin> Version ` set ?K) ?history = Some (last plan)"
    by (elim exE conjE) (rule that, assumption+)
  with v d K fnd
  have r: "Migrator_Reset ?K ?db = (Some (3, 3, Some ErrorSomeMigrationsAreAbsent), ?db)"
    and l: "last plan = decode \<lparr>version = 2, name = ''m''\<rparr>"
    by simp_all
  from c l have "\<exists>plan. correlateMigrations ?history ?K = (plan, Some ErrorSomeMigrationsAreAbsent)
      \<and> last plan = decode \<lparr>version = 2, name = ''m''\<rparr>"
    by blast
  with r show ?thesis
    by (rule conjI)
qed

section \<open>The version returned when a step fails\<close>

text \<open>
  C5, as stated, fails: with history 0 and known set 0, 1, 2, where the body of 2 fails,
  \<open>up\<close> applies and stores 1 and then returns the new version 2 with the error, while
  the version reached and stored is 1.
\<close>

theorem newVersion_of_failed_Up_counterexample:
  "(case Migrator_Up (NewMigrator [example_migration 1, failing_migration 2])
           (example_db [0]) (- 1) of
      (r, db') \<Rightarrow>
        r = Some (0, 2, Some (OtherError ''failed''))
        \<and> map version (migrations_coll db') = [0, 1]
        \<and> fst (Migrator_Version [] db') = (1, 1, None))"
  by code_simp

lemma driver_op_frame:
  "driver_op db = (r, db') \<Longrightarrow>
     calls db' = calls db \<and> migrations_coll db' = migrations_coll db \<and> data db' = data db"
  by (auto simp: driver_op_def split: list.splits)

lemma Find_frame:
  "Find db = (r, db') \<Longrightarrow> calls db' = calls db \<and> migrations_coll db' = migrations_coll db"
  by (auto simp: Find_def split: prod.splits option.splits dest: driver_op_frame)

lemma FindOne_latest_frame:
  "FindOne_latest db = (r, db') \<Longrightarrow>
     calls db' = calls db \<and> migrations_coll db' = migrations_coll db"
  by (auto simp: FindOne_latest_def split: prod.splits option.splits list.splits
      dest: driver_op_frame)

lemma InsertOne_frame:
  "InsertOne doc db = (r, db') \<Longrightarrow>
     calls db' = calls db
     \<and> migrations_coll db' = (if r = None then migrations_coll db @ [doc] else migrations_coll db)"
  by (auto simp: InsertOne_def split: prod.splits option.splits dest: driver_op_frame)

lemma DeleteOne_frame:
  "DeleteOne v db = (r, db') \<Longrightarrow>
     calls db' = calls db
     \<and> migrations_coll db' =
         (if r = None then delete_first v (migrations_coll db) else migrations_coll db)"
  by (auto simp: DeleteOne_def split: prod.splits option.splits dest: driver_op_frame)

lemma run_body_frame:
  "run_body f c db = Some (r, db') \<Longrightarrow>
     calls db' = calls db @ [c] \<and> migrations_coll db' = migrations_coll db"
  by (auto simp: run_body_def split: option.splits prod.splits)

lemma Up_loop_failure:
  "Up_loop merged old nv db = (Some (ov, n, Some e), db') \<Longrightarrow>
     \<exists>vs. calls db' = calls db @ map UpCall vs @ [UpCall n]
        \<and> map version (migrations_coll db') = map version (migrations_coll db) @ vs"
proof (induction merged arbitrary: nv db)
  case Nil
  then show ?case by simp
next
  case (Cons migr rest)
  show ?case
  proof (cases "Stored migr")
    case True
    with Cons show ?thesis by simp
  next
    case ns: False
    show ?thesis
    proof (cases "run_body (Up migr) (UpCall (Version migr)) db")
      case None
      with ns Cons.prems show ?thesis by simp
    next
      case (Some a)
      then obtain err db1 where rb: "run_body (Up migr) (UpCall (Version migr)) db = Some (err, db1)"
        by (cases a) auto
      note f1 = run_body_frame [OF rb]
      show ?thesis
      proof (cases err)
        case (Some e1)
        with ns rb Cons.prems have "n = Version migr" and "db' = db1"
          by simp_all
        with f1 have "calls db' = calls db @ map UpCall [] @ [UpCall n]
            \<and> map version (migrations_coll db') = map version (migrations_coll db) @ []"
          by simp
        then show ?thesis by blast
      next
        case None
        obtain err2 db2 where ins: "InsertOne (encode (migr\<lparr>Stored := True\<rparr>)) db1 = (err2, db2)"
          by (cases "InsertOne (encode (migr\<lparr>Stored := True\<rparr>)) db1")
        note f2 = InsertOne_frame [OF ins]
        show ?thesis
        proof (cases err2)
          case (Some e2)
          with ns rb None ins Cons.prems have "n = Version migr" and "db' = db2"
            by simp_all
          with f1 f2 Some have "calls db' = calls db @ map UpCall [] @ [UpCall n]
              \<and> map version (migrations_coll db') = map version (migrations_coll db) @ []"
            by simp
          then show ?thesis by blast
        next
          case ok: None
          with ns rb None ins Cons.prems
          have "Up_loop rest old (Version migr) db2 = (Some (ov, n, Some e), db')"
            by simp
          from Cons.IH [OF this] obtain vs where
            "calls db' = calls db2 @ map UpCall vs @ [UpCall n]"
            "map version (migrations_coll db') = map version (migrations_coll db2) @ vs"
            by blast
          with f1 f2 ok have "calls db' = calls db @ map UpCall (Version migr # vs) @ [UpCall n]
              \<and> map version (migrations_coll db')
                  = map version (migrations_coll db) @ (Version migr # vs)"
            by (simp add: encode_def)
          then show ?thesis by blast
        qed
      qed
    qed
  qed
qed

lemma Down_loop_failure:
  "Down_loop m old n db = (Some (ov, new, Some e), db') \<Longrightarrow> n \<le> length m \<Longrightarrow>
     ov = old \<and> calls db' = calls db @ [DownCall old] \<and> migrations_coll db' = migrations_coll db
     \<and> (\<exists>i. 0 < i \<and> i < length m \<and> Version (m ! i) = old \<and> new = Version (m ! (i - 1)))"
proof (induction n)
  case 0
  then show ?case by simp
next
  case (Suc i)
  show ?case
  proof (cases "Version (m ! i) = old")
    case False
    with Suc show ?thesis by simp
  next
    case v: True
    show ?thesis
    proof (cases "0 < i")
      case False
      with v Suc.prems show ?thesis by simp
    next
      case pos: True
      show ?thesis
      proof (cases "run_body (Down (m ! i)) (DownCall (Version (m ! i))) db")
        case None
        with v pos Suc.prems show ?thesis by simp
      next
        case (Some a)
        then obtain err db1 where
          rb: "run_body (Down (m ! i)) (DownCall (Version (m ! i))) db = Some (err, db1)"
          by (cases a) auto
        note f1 = run_body_frame [OF rb]
        have idx: "0 < i \<and> i < length m \<and> Version (m ! i) = old"
          using pos v Suc.prems(2) by simp
        show ?thesis
        proof (cases err)
          case (Some e1)
          with v pos rb Suc.prems have "new = Version (m ! (i - 1))" and "db' = db1" and "ov = old"
            by (simp_all add: Let_def)
          with f1 v idx show ?thesis by auto
        next
          case None
          obtain err2 db2 where del: "DeleteOne (Version (m ! i)) db1 = (err2, db2)"
            by (cases "DeleteOne (Version (m ! i)) db1")
          with v pos rb None Suc.prems
          have "new = Version (m ! (i - 1))" and "db' = db2" and "err2 = Some e" and "ov = old"
            by (simp_all add: Let_def)
          with f1 DeleteOne_frame [OF del] v idx show ?thesis by auto
        qed
      qed
    qed
  qed
qed

lemma Reset_loop_failure:
  "Reset_loop c old nv n db = (Some (ov, new, Some e), db') \<Longrightarrow>
     \<exists>i<n. calls db' \<noteq> [] \<and> last (calls db') = DownCall (Version (c ! i))
        \<and> new = (if 0 < i then Version (c ! (i - 1)) else Version (c ! i))"
proof (induction n arbitrary: nv db)
  case 0
  then show ?case by simp
next
  case (Suc i)
  let ?migr = "c ! i"
  let ?nv = "if 0 < i then Version (c ! (i - 1)) else Version ?migr"
  show ?case
  proof (cases "run_body (Down ?migr) (DownCall (Version ?migr)) db")
    case None
    with Suc.prems show ?thesis by (simp add: Let_def)
  next
    case (Some a)
    then obtain err db1 where
      rb: "run_body (Down ?migr) (DownCall (Version ?migr)) db = Some (err, db1)"
      by (cases a) auto
    note f1 = run_body_frame [OF rb]
    have here: "calls db1 \<noteq> [] \<and> last (calls db1) = DownCall (Version (c ! i))"
      using f1 by simp
    show ?thesis
    proof (cases err)
      case (Some e1)
      with rb Suc.prems have "new = ?nv" and "db' = db1"
        by (simp_all add: Let_def)
      with here show ?thesis by blast
    next
      case None
      show ?thesis
      proof (cases "0 <s Version ?migr")
        case False
        with rb None Suc.prems have "Reset_loop c old ?nv i db1 = (Some (ov, new, Some e), db')"
          by (simp add: Let_def)
        from Suc.IH [OF this] show ?thesis
          using less_Suc_eq by blast
      next
        case True
        obtain err2 db2 where del: "DeleteOne (Version ?migr) db1 = (err2, db2)"
          by (cases "DeleteOne (Version ?migr) db1")
        note f2 = DeleteOne_frame [OF del]
        show ?thesis
        proof (cases err2)
          case (Some e2)
          with rb None True del Suc.prems have "new = ?nv" and "db' = db2"
            by (simp_all add: Let_def)
          with here f2 show ?thesis by auto
        next
          case ok: None
          with rb None True del Suc.prems
          have "Reset_loop c old ?nv i db2 = (Some (ov, new, Some e), db')"
            by (simp add: Let_def)
          from Suc.IH [OF this] show ?thesis
            using less_Suc_eq by blast
        qed
      qed
    qed
  qed
qed


text \<open>
  C5, amended: when a command returns an error after it has run at least one body, the
  new version it returns is the version that the failing step was moving to. For \<open>up\<close>
  it is the version of the migration whose body was called last, and the records added
  are those of the bodies called before it. For \<open>down\<close> it is the version of the known
  migration just below the current one, whose body was called, while the collection
  is as before. For \<open>reset\<close> it is the version of the correlated migration just below
  the one whose body was called last (that version itself at the lowest position).
\<close>

theorem newVersion_of_failed_step:
  "(Migrator_Up m db target = (Some (old, new, Some e), db') \<and> calls db' \<noteq> calls db \<longrightarrow>
      (\<exists>vs. calls db' = calls db @ map UpCall vs @ [UpCall new]
         \<and> map version (migrations_coll db') = map version (migrations_coll db) @ vs))
   \<and> (Migrator_Down m db = (Some (old, new, Some e), db') \<and> calls db' \<noteq> calls db \<longrightarrow>
        calls db' = calls db @ [DownCall old] \<and> migrations_coll db' = migrations_coll db
        \<and> (\<exists>i. 0 < i \<and> i < length m \<and> Version (m ! i) = old \<and> new = Version (m ! (i - 1))))
   \<and> (Migrator_Reset m db = (Some (old, new, Some e), db') \<and> calls db' \<noteq> calls db \<longrightarrow>
        (\<exists>i<length (fst (correlateMigrations
                 (map decode (sort_key (\<lambda>d. sint (version d)) (migrations_coll db))) m)).
            last (calls db') = DownCall (Version (fst (correlateMigrations
                 (map decode (sort_key (\<lambda>d. sint (version d)) (migrations_coll db))) m) ! i))
            \<and> new = (if 0 < i
                 then Version (fst (correlateMigrations
                   (map decode (sort_key (\<lambda>d. sint (version d)) (migrations_coll db))) m) ! (i - 1))
                 else Version (fst (correlateMigrations
                   (map decode (sort_key (\<lambda>d. sint (version d)) (migrations_coll db))) m) ! i))))"
proof -
  have up: "Migrator_Up m db target = (Some (old, new, Some e), db') \<and> calls db' \<noteq> calls db \<longrightarrow>
      (\<exists>vs. calls db' = calls db @ map UpCall vs @ [UpCall new]
         \<and> map version (migrations_coll db') = map version (migrations_coll db) @ vs)"
  proof
    assume a: "Migrator_Up m db target = (Some (old, new, Some e), db') \<and> calls db' \<noteq> calls db"
    obtain r db1 where f: "Find db = (r, db1)"
      by (cases "Find db")
    note fr = Find_frame [OF f]
    show "\<exists>vs. calls db' = calls db @ map UpCall vs @ [UpCall new]
        \<and> map version (migrations_coll db') = map version (migrations_coll db) @ vs"
    proof (cases r)
      case (Inl e1)
      with a f fr show ?thesis
        by (auto simp: Migrator_Up_def)
    next
      case (Inr docs)
      with a f obtain merged ov nv where
        "Up_loop merged ov nv db1 = (Some (old, new, Some e), db')"
        by (auto simp: Migrator_Up_def Let_def split: option.splits)
      from Up_loop_failure [OF this] fr show ?thesis
        by simp
    qed
  qed
  have down: "Migrator_Down m db = (Some (old, new, Some e), db') \<and> calls db' \<noteq> calls db \<longrightarrow>
      calls db' = calls db @ [DownCall old] \<and> migrations_coll db' = migrations_coll db
      \<and> (\<exists>i. 0 < i \<and> i < length m \<and> Version (m ! i) = old \<and> new = Version (m ! (i - 1)))"
  proof
    assume a: "Migrator_Down m db = (Some (old, new, Some e), db') \<and> calls db' \<noteq> calls db"
    obtain r db1 where f: "FindOne_latest db = (r, db1)"
      by (cases "FindOne_latest db")
    note fr = FindOne_latest_frame [OF f]
    show "calls db' = calls db @ [DownCall old] \<and> migrations_coll db' = migrations_coll db
        \<and> (\<exists>i. 0 < i \<and> i < length m \<and> Version (m ! i) = old \<and> new = Version (m ! (i - 1)))"
    proof (cases r)
      case (Inl e1)
      with a f fr show ?thesis
        by (auto simp: Migrator_Down_def)
    next
      case (Inr doc)
      with a f have l: "Down_loop m (version doc) (length m) db1 = (Some (old, new, Some e), db')"
        by (simp add: Migrator_Down_def)
      from Down_loop_failure [OF l] fr show ?thesis
        by simp
    qed
  qed
  let ?c = "fst (correlateMigrations
      (map decode (sort_key (\<lambda>d. sint (version d)) (migrations_coll db))) m)"
  have reset: "Migrator_Reset m db = (Some (old, new, Some e), db') \<and> calls db' \<noteq> calls db \<longrightarrow>
      (\<exists>i<length ?c. last (calls db') = DownCall (Version (?c ! i))
          \<and> new = (if 0 < i then Version (?c ! (i - 1)) else Version (?c ! i)))"
  proof
    assume a: "Migrator_Reset m db = (Some (old, new, Some e), db') \<and> calls db' \<noteq> calls db"
    obtain r db1 where f: "Find db = (r, db1)"
      by (cases "Find db")
    note fr = Find_frame [OF f]
    show "\<exists>i<length ?c. last (calls db') = DownCall (Version (?c ! i))
        \<and> new = (if 0 < i then Version (?c ! (i - 1)) else Version (?c ! i))"
    proof (cases r)
      case (Inl e1)
      with a f fr show ?thesis
        by (auto simp: Migrator_Reset_def)
    next
      case (Inr docs)
      with f have docs: "docs = sort_key (\<lambda>d. sint (version d)) (migrations_coll db)"
        by (auto simp: Find_def split: prod.splits option.splits dest: driver_op_frame)
      obtain correlated err where
        c: "correlateMigrations (map decode docs) m = (correlated, err)"
        by (cases "correlateMigrations (map decode docs :: 'a Migration list) m")
      show ?thesis
      proof (cases "docs = [] \<or> err \<noteq> None")
        case True
        with f Inr c have "snd (Migrator_Reset m db) = db1"
          by (auto simp: Migrator_Reset_def Let_def)
        with a fr show ?thesis
          by simp
      next
        case False
        with a f Inr c obtain ov nv where
          "Reset_loop correlated ov nv (length correlated) db1 = (Some (old, new, Some e), db')"
          by (auto simp: Migrator_Reset_def Let_def)
        from Reset_loop_failure [OF this] c docs show ?thesis
          by auto
      qed
    qed
  qed
  show ?thesis
    by (rule conjI [OF up conjI [OF down reset]])
qed


theorem newVersion_of_failed_step_witness:
  "(\<exists>vs. calls (snd (Migrator_Up (NewMigrator [example_migration 1, failing_migration 2])
                 (example_db [0]) (- 1)))
            = calls (example_db [0]) @ map UpCall vs @ [UpCall 2]
        \<and> map version (migrations_coll (snd (Migrator_Up
              (NewMigrator [example_migration 1, failing_migration 2]) (example_db [0]) (- 1))))
            = map version (migrations_coll (example_db [0])) @ vs)
   \<and> calls (snd (Migrator_Down (NewMigrator [example_migration 1, failing_migration 2])
                 (example_db [0, 1, 2])))
       = calls (example_db [0, 1, 2]) @ [DownCall 2]
   \<and> fst (Migrator_Down (NewMigrator [example_migration 1, failing_migration 2])
                 (example_db [0, 1, 2]))
       = Some (2, 1, Some (OtherError ''failed''))
   \<and> fst (Migrator_Reset (NewMigrator [example_migration 1, failing_migration 2])
                 (example_db [0, 1, 2]))
       = Some (2, 1, Some (OtherError ''failed''))
   \<and> last (calls (snd (Migrator_Reset (NewMigrator [example_migration 1, failing_migration 2])
                 (example_db [0, 1, 2]))))
       = DownCall 2
   \<and> (\<exists>i. last (calls (snd (Migrator_Reset
                 (NewMigrator [example_migration 1, failing_migration 2]) (example_db [0, 1, 2]))))
           = DownCall (Version (fst (correlateMigrations
               (map decode (sort_key (\<lambda>d. sint (version d))
                  (migrations_coll (example_db [0, 1, 2]))))
               (NewMigrator [example_migration 1, failing_migration 2])) ! i)))"
proof -
  let ?K = "NewMigrator [example_migration 1, failing_migration 2]"
  let ?e = "OtherError ''failed''"
  let ?u = "snd (Migrator_Up ?K (example_db [0]) (- 1))"
  let ?d = "snd (Migrator_Down ?K (example_db [0, 1, 2]))"
  let ?r = "snd (Migrator_Reset ?K (example_db [0, 1, 2]))"
  have u: "Migrator_Up ?K (example_db [0]) (- 1) = (Some (0, 2, Some ?e), ?u)
      \<and> calls ?u \<noteq> calls (example_db [0])"
    by code_simp
  have d: "Migrator_Down ?K (example_db [0, 1, 2]) = (Some (2, 1, Some ?e), ?d)
      \<and> calls ?d \<noteq> calls (example_db [0, 1, 2])"
    by code_simp
  have r: "Migrator_Reset ?K (example_db [0, 1, 2]) = (Some (2, 1, Some ?e), ?r)
      \<and> calls ?r \<noteq> calls (example_db [0, 1, 2])"
    by code_simp
  have lr: "last (calls ?r) = DownCall 2"
    by code_simp
  from newVersion_of_failed_step [of ?K "example_db [0]" "- 1" 0 2 ?e ?u] u
  have c1: "\<exists>vs. calls ?u = calls (example_db [0]) @ map UpCall vs @ [UpCall 2]
      \<and> map version (migrations_coll ?u) = map version (migrations_coll (example_db [0])) @ vs"
    by blast
  from newVersion_of_failed_step [of ?K "example_db [0, 1, 2]" 0 2 1 ?e ?d] d
  have c2: "calls ?d = calls (example_db [0, 1, 2]) @ [DownCall 2]"
    by blast
  from newVersion_of_failed_step [of ?K "example_db [0, 1, 2]" 0 2 1 ?e ?r] r
  have c5: "\<exists>i. last (calls ?r) = DownCall (Version (fst (correlateMigrations
      (map decode (sort_key (\<lambda>d. sint (version d)) (migrations_coll (example_db [0, 1, 2])))) ?K) ! i))"
    by blast
  have c3: "fst (Migrator_Down ?K (example_db [0, 1, 2])) = Some (2, 1, Some ?e)"
    using d by (metis fst_conv)
  have c4: "fst (Migrator_Reset ?K (example_db [0, 1, 2])) = Some (2, 1, Some ?e)"
    using r by (metis fst_conv)
  show ?thesis
    by (rule conjI [OF c1 conjI [OF c2 conjI [OF c3 conjI [OF c4 conjI [OF lr c5]]]]])
qed

section \<open>The command reset on a history covered by known code\<close>

lemma run_body_success:
  assumes "f = Some g" and "\<forall>d. fst (g d) = None"
  shows "run_body f c db = Some (None, db\<lparr>data := snd (g (data db)), calls := calls db @ [c]\<rparr>)"
proof -
  obtain err d' where gd: "g (data db) = (err, d')"
    by (cases "g (data db)")
  with assms(2) have "err = None"
    by (metis fst_conv)
  with assms(1) gd show ?thesis
    by (simp add: run_body_def)
qed

lemma DeleteOne_no_faults:
  "faults db = [] \<Longrightarrow>
     DeleteOne v db = (None, db\<lparr>migrations_coll := delete_first v (migrations_coll db)\<rparr>)"
  by (simp add: DeleteOne_def driver_op_no_faults)

lemma Reset_loop_success:
  assumes bodies: "\<forall>k\<in>set c. \<exists>g. Down k = Some g \<and> (\<forall>d. fst (g d) = None)"
  shows "n \<le> length c \<Longrightarrow> faults db = [] \<Longrightarrow>
     \<exists>db'. Reset_loop c old nv n db
              = (Some (old, if n = 0 then nv else Version (c ! 0), None), db')
        \<and> calls db' = calls db @ map DownCall (rev (map Version (take n c)))
        \<and> migrations_coll db'
            = fold (\<lambda>v coll. if 0 <s v then delete_first v coll else coll)
                (rev (map Version (take n c))) (migrations_coll db)
        \<and> faults db' = []"
proof (induction n arbitrary: nv db)
  case 0
  then show ?case by simp
next
  case (Suc i)
  let ?migr = "c ! i"
  let ?nv = "if 0 < i then Version (c ! (i - 1)) else Version ?migr"
  let ?del = "\<lambda>v coll. if 0 <s v then delete_first v coll else coll"
  from Suc.prems(1) have i: "i < length c"
    by simp
  with bodies obtain g where g: "Down ?migr = Some g" "\<forall>d. fst (g d) = None"
    by (metis nth_mem)
  let ?db1 = "db\<lparr>data := snd (g (data db)), calls := calls db @ [DownCall (Version ?migr)]\<rparr>"
  have rb: "run_body (Down ?migr) (DownCall (Version ?migr)) db = Some (None, ?db1)"
    using g by (rule run_body_success)
  let ?db2 = "?db1\<lparr>migrations_coll := ?del (Version ?migr) (migrations_coll db)\<rparr>"
  have step: "Reset_loop c old nv (Suc i) db = Reset_loop c old ?nv i ?db2"
    using rb Suc.prems(2) by (simp add: Let_def DeleteOne_no_faults)
  have "i \<le> length c" and "faults ?db2 = []"
    using i Suc.prems(2) by simp_all
  from Suc.IH [OF this, of ?nv] obtain db' where
    loop: "Reset_loop c old ?nv i ?db2
        = (Some (old, if i = 0 then ?nv else Version (c ! 0), None), db')"
    and calls: "calls db' = calls ?db2 @ map DownCall (rev (map Version (take i c)))"
    and coll: "migrations_coll db'
        = fold ?del (rev (map Version (take i c))) (migrations_coll ?db2)"
    and faults: "faults db' = []"
    by blast
  have nv: "(if i = 0 then ?nv else Version (c ! 0)) = Version (c ! 0)"
    by simp
  have tk: "take (Suc i) c = take i c @ [c ! i]"
    using i by (rule take_Suc_conv_app_nth)
  have "Reset_loop c old nv (Suc i) db = (Some (old, Version (c ! 0), None), db')"
    using step loop nv by simp
  moreover have "calls db' = calls db @ map DownCall (rev (map Version (take (Suc i) c)))"
    using calls tk by simp
  moreover have "migrations_coll db'
      = fold ?del (rev (map Version (take (Suc i) c))) (migrations_coll db)"
    using coll tk by simp
  ultimately show ?case
    using faults by simp
qed

lemma delete_first_filter:
  "distinct (map version coll) \<Longrightarrow>
     delete_first v coll = filter (\<lambda>d. version d \<noteq> v) coll"
proof (induction coll)
  case Nil
  then show ?case by simp
next
  case (Cons d ds)
  show ?case
  proof (cases "version d = v")
    case True
    with Cons.prems have "v \<notin> version ` set ds"
      by simp
    then have "\<forall>x\<in>set ds. version x \<noteq> v"
      by blast
    then have "filter (\<lambda>d. version d \<noteq> v) ds = ds"
      by (simp add: filter_id_conv)
    with True show ?thesis by simp
  next
    case False
    with Cons show ?thesis by simp
  qed
qed

lemma fold_delete_filter:
  "distinct (map version coll) \<Longrightarrow>
     fold (\<lambda>v coll. if 0 <s v then delete_first v coll else coll) vs coll
       = filter (\<lambda>d. \<not> (version d \<in> set vs \<and> 0 <s version d)) coll"
proof (induction vs arbitrary: coll)
  case Nil
  then show ?case by simp
next
  case (Cons v vs)
  let ?step = "if 0 <s v then delete_first v coll else coll"
  have step: "?step = filter (\<lambda>d. \<not> (version d = v \<and> 0 <s version d)) coll"
  proof (cases "0 <s v")
    case True
    have "filter (\<lambda>d. version d \<noteq> v) coll
        = filter (\<lambda>d. \<not> (version d = v \<and> 0 <s version d)) coll"
      using True by (intro filter_cong) auto
    with True Cons.prems show ?thesis
      by (simp add: delete_first_filter)
  next
    case False
    then have "\<forall>d\<in>set coll. \<not> (version d = v \<and> 0 <s version d)"
      by auto
    then have "filter (\<lambda>d. \<not> (version d = v \<and> 0 <s version d)) coll = coll"
      by (simp add: filter_id_conv)
    with False show ?thesis by simp
  qed
  have "distinct (map version ?step)"
    unfolding step using Cons.prems by (rule distinct_map_filter)
  from Cons.IH [OF this] step show ?case
    by (auto intro: filter_cong)
qed


lemma filter_eq_distinct:
  "distinct xs \<Longrightarrow> x \<in> set xs \<Longrightarrow> filter (\<lambda>v. v = x) xs = [x]"
  by (induction xs) (auto simp: filter_empty_conv)

lemma Reset_covered:
  fixes m :: "'d Migration list"
  assumes known: "sorted_wrt Less m"
    and bodies: "\<forall>k\<in>set m. \<exists>g. Down k = Some g \<and> (\<forall>d. fst (g d) = None)"
    and faults: "faults db = []"
    and unique: "distinct (map version (migrations_coll db))"
    and covered: "version ` set (migrations_coll db) \<subseteq> Version ` set m"
    and zero: "\<exists>d\<in>set (migrations_coll db). version d = 0"
    and floor: "\<forall>d\<in>set (migrations_coll db). \<not> version d <s 0"
  shows "\<exists>old db'. Migrator_Version m db = ((old, old, None), db)
           \<and> Migrator_Reset m db = (Some (old, 0, None), db')
           \<and> calls db' = calls db @ map DownCall
                 (rev (map version (sort_key (\<lambda>d. sint (version d)) (migrations_coll db))))
           \<and> migrations_coll db' = filter (\<lambda>d. version d = 0) (migrations_coll db)
           \<and> map version (migrations_coll db') = [0]"
proof -
  let ?coll = "migrations_coll db"
  let ?docs = "sort_key (\<lambda>d. sint (version d)) ?coll"
  let ?history = "map decode ?docs :: 'd Migration list"
  let ?old = "version (last ?docs)"
  let ?c = "fst (correlateMigrations ?history m)"
  from zero have ne: "?coll \<noteq> []"
    by auto
  then have docs: "?docs \<noteq> []"
    by (metis length_sort length_0_conv)
  have v: "Migrator_Version m db = ((?old, ?old, None), db)"
    using faults ne by (rule Version_initialized)
  have hist: "sorted_wrt Less ?history"
    using unique by (rule sorted_docs_strict)
  have "Version ` set ?history = version ` set ?coll"
    by (simp add: image_image)
  with covered have ok: "snd (correlateMigrations ?history m) = None"
    using correlate_list_success_iff [OF hist known] by (simp add: correlateMigrations_list)
  then have pairs: "list_all2 (\<lambda>a c. c \<in> set m \<and> Version c = Version a) ?history ?c"
    by (simp add: correlateMigrations_list correlate_list_pairs)
  from list_all2_lengthD [OF pairs] have len: "length ?c = length ?docs"
    by simp
  have vers: "map Version ?c = map version ?docs"
  proof (rule nth_equalityI)
    show "length (map Version ?c) = length (map version ?docs)"
      using len by simp
  next
    fix i
    assume "i < length (map Version ?c)"
    then have i: "i < length ?docs"
      using len by simp
    with pairs have "Version (?c ! i) = Version (?history ! i)"
      by (simp add: list_all2_conv_all_nth)
    with i len show "map Version ?c ! i = map version ?docs ! i"
      by simp
  qed
  have "set ?c \<subseteq> set m"
  proof
    fix k
    assume "k \<in> set ?c"
    then obtain i where "i < length ?c" and "k = ?c ! i"
      by (auto simp: in_set_conv_nth)
    with list_all2_nthD2 [OF pairs] show "k \<in> set m"
      by simp
  qed
  with bodies have cb: "\<forall>k\<in>set ?c. \<exists>g. Down k = Some g \<and> (\<forall>d. fst (g d) = None)"
    by blast
  from Reset_loop_success [OF cb le_refl faults, of ?old ?old]
  obtain db' where
    loop: "Reset_loop ?c ?old ?old (length ?c) db
        = (Some (?old, if length ?c = 0 then ?old else Version (?c ! 0), None), db')"
    and calls: "calls db' = calls db @ map DownCall (rev (map Version (take (length ?c) ?c)))"
    and coll: "migrations_coll db'
        = fold (\<lambda>v coll. if 0 <s v then delete_first v coll else coll)
            (rev (map Version (take (length ?c) ?c))) ?coll"
    by blast
  have "0 < length ?docs"
    using ne by simp
  then have "map Version ?c ! 0 = Version (?c ! 0)" and "map version ?docs ! 0 = version (?docs ! 0)"
    using len by simp_all
  with vers have c0: "Version (?c ! 0) = version (?docs ! 0)"
    by simp
  have "version (?docs ! 0) = 0"
  proof -
    from zero obtain z where z: "z \<in> set ?docs" "version z = 0"
      by auto
    have "sorted (map (\<lambda>d. sint (version d)) ?docs)"
      by simp
    moreover from z(1) obtain k where k: "k < length ?docs" and zk: "z = ?docs ! k"
      by (metis in_set_conv_nth)
    ultimately have "map (\<lambda>d. sint (version d)) ?docs ! 0 \<le> map (\<lambda>d. sint (version d)) ?docs ! k"
      by (intro sorted_nth_mono) simp_all
    moreover have pos: "0 < length ?docs"
      using ne by simp
    ultimately have "sint (version (?docs ! 0)) \<le> sint (version z)"
      using k zk by simp
    moreover from pos have "?docs ! 0 \<in> set ?docs"
      by (rule nth_mem)
    then have "?docs ! 0 \<in> set ?coll"
      by simp
    with floor have "\<not> version (?docs ! 0) <s 0"
      by blast
    ultimately show ?thesis
      using z(2) by (simp add: word_sless_alt sint_eq_iff [symmetric])
  qed
  with c0 len ne have new: "(if length ?c = 0 then ?old else Version (?c ! 0)) = 0"
    by simp
  have hv: "Version (?history ! (length ?history - 1)) = ?old"
  proof -
    have "length ?docs - 1 < length ?docs"
      using ne by simp
    then have "Version (?history ! (length ?history - 1)) = version (?docs ! (length ?docs - 1))"
      by (simp only: length_map nth_map Version_decode)
    then show ?thesis
      using docs by (simp add: last_conv_nth)
  qed
  obtain correlated where cc: "correlateMigrations ?history m = (correlated, None)"
    using ok by (cases "correlateMigrations ?history m") auto
  then have "correlated = ?c"
    by simp
  with loop new
  have "Reset_loop correlated ?old ?old (length correlated) db = (Some (?old, 0, None), db')"
    by simp
  with cc hv docs
  have reset: "Migrator_Reset m db = (Some (?old, 0, None), db')"
    by (simp add: Migrator_Reset_def Find_no_faults [OF faults] Let_def)
  have calls': "calls db' = calls db @ map DownCall (rev (map version ?docs))"
    using calls vers by simp
  have "migrations_coll db'
      = filter (\<lambda>d. \<not> (version d \<in> set (rev (map version ?docs)) \<and> 0 <s version d)) ?coll"
    using coll vers unique by (simp add: fold_delete_filter)
  also have "\<dots> = filter (\<lambda>d. version d = 0) ?coll"
  proof (rule filter_cong [OF refl])
    fix d
    assume d: "d \<in> set ?coll"
    with floor have "\<not> version d <s 0"
      by blast
    then have "0 <s version d \<longleftrightarrow> version d \<noteq> 0"
      by (auto simp: word_sless_alt sint_eq_iff [symmetric])
    with d show "(\<not> (version d \<in> set (rev (map version ?docs)) \<and> 0 <s version d))
        \<longleftrightarrow> version d = 0"
      by auto
  qed
  finally have coll': "migrations_coll db' = filter (\<lambda>d. version d = 0) ?coll" .
  have "map version (filter (\<lambda>d. version d = 0) ?coll) = [0]"
  proof -
    have "map version (filter (\<lambda>d. version d = 0) ?coll)
        = filter (\<lambda>v. v = 0) (map version ?coll)"
      by (simp add: filter_map comp_def)
    moreover have "0 \<in> set (map version ?coll)"
      using zero by force
    ultimately show ?thesis
      using unique by (simp only: filter_eq_distinct)
  qed
  with v reset calls' coll' show ?thesis
    by auto
qed










section \<open>The commands init, up and reset in sequence\<close>

lemma merge_loop2_drop: "merge_loop2 applied i merged = merged @ drop i applied"
proof (induction applied i merged rule: merge_loop2.induct)
  case (1 applied i merged)
  show ?case
  proof (cases "i < length applied")
    case True
    with 1 show ?thesis
      by (subst merge_loop2.simps) (simp add: Cons_nth_drop_Suc)
  next
    case False
    then show ?thesis
      by (subst merge_loop2.simps) simp
  qed
qed

lemma merge_loop3_takeWhile:
  "merge_loop3 actual mx j merged
     = merged @ takeWhile (\<lambda>k. Version k <s mx) (drop j actual)"
proof (induction actual mx j merged rule: merge_loop3.induct)
  case (1 actual mx j merged)
  show ?case
  proof (cases "j < length actual")
    case False
    then show ?thesis
      by (subst merge_loop3.simps) simp
  next
    case j: True
    then have dj: "drop j actual = actual ! j # drop (j + 1) actual"
      by (simp add: Cons_nth_drop_Suc)
    from j have ne: "actual \<noteq> []"
      by auto
    show ?thesis
    proof (cases "Version (actual ! j) <s mx")
      case True
      with j 1 dj show ?thesis
        by (subst merge_loop3.simps) simp
    next
      case False
      with j dj ne show ?thesis
        by (subst merge_loop3.simps) simp
    qed
  qed
qed

lemma mergeMigrations_single:
  assumes "\<not> Less a b" and "\<not> Less b a"
  shows "mergeMigrations [a] (b # rest) target
     = Some (a # tl (takeWhile (\<lambda>k. Version k <s mergeMax (b # rest) target) (b # rest)))"
proof -
  let ?mx = "mergeMax (b # rest) target"
  show ?thesis
  proof (cases "Version b <s ?mx")
    case True
    have "merge_loop1 [a] (b # rest) ?mx 0 0 [] = merge_loop1 [a] (b # rest) ?mx 1 1 [a]"
      using assms True by (subst merge_loop1.simps) simp
    also have "\<dots> = Some (1, 1, [a])"
      by (subst merge_loop1.simps) simp
    finally show ?thesis
      using True by (simp add: mergeMigrations_def merge_loop2_drop merge_loop3_takeWhile)
  next
    case False
    then have "merge_loop1 [a] (b # rest) ?mx 0 0 [] = Some (0, 0, [])"
      by (subst merge_loop1.simps) simp
    with False show ?thesis
      by (simp add: mergeMigrations_def merge_loop2_drop merge_loop3_takeWhile)
  qed
qed

lemma InsertOne_no_faults:
  "faults db = [] \<Longrightarrow>
     InsertOne doc db = (None, db\<lparr>migrations_coll := migrations_coll db @ [doc]\<rparr>)"
  by (simp add: InsertOne_def driver_op_no_faults)

lemma Up_loop_success:
  assumes "\<forall>k\<in>set pending. \<not> Stored k \<and> (\<exists>g. Up k = Some g \<and> (\<forall>d. fst (g d) = None))"
    and "faults db = []"
  shows "\<exists>db'. Up_loop pending old nv db
              = (Some (old, if pending = [] then nv else Version (last pending), None), db')
        \<and> calls db' = calls db @ map UpCall (map Version pending)
        \<and> migrations_coll db' = migrations_coll db @ map encode pending
        \<and> faults db' = []"
  using assms
proof (induction pending arbitrary: nv db)
  case Nil
  then show ?case by simp
next
  case (Cons migr rest)
  from Cons.prems(1) obtain g where ns: "\<not> Stored migr"
    and g: "Up migr = Some g" "\<forall>d. fst (g d) = None"
    by auto
  let ?db1 = "db\<lparr>data := snd (g (data db)), calls := calls db @ [UpCall (Version migr)]\<rparr>"
  let ?db2 = "?db1\<lparr>migrations_coll := migrations_coll db @ [encode migr]\<rparr>"
  have rb: "run_body (Up migr) (UpCall (Version migr)) db = Some (None, ?db1)"
    using g by (rule run_body_success)
  have "faults ?db1 = []"
    using Cons.prems(2) by simp
  then have ins: "InsertOne (encode (migr\<lparr>Stored := True\<rparr>)) ?db1 = (None, ?db2)"
    by (simp add: InsertOne_no_faults encode_def)
  have step: "Up_loop (migr # rest) old nv db = Up_loop rest old (Version migr) ?db2"
    using ns rb ins by simp
  have "\<forall>k\<in>set rest. \<not> Stored k \<and> (\<exists>g. Up k = Some g \<and> (\<forall>d. fst (g d) = None))"
    and "faults ?db2 = []"
    using Cons.prems by simp_all
  from Cons.IH [OF this, of "Version migr"] obtain db' where
    "Up_loop rest old (Version migr) ?db2
        = (Some (old, if rest = [] then Version migr else Version (last rest), None), db')"
    and "calls db' = calls ?db2 @ map UpCall (map Version rest)"
    and "migrations_coll db' = migrations_coll ?db2 @ map encode rest"
    and "faults db' = []"
    by blast
  with step show ?case
    by simp
qed


lemma NewMigrator_Cons:
  fixes migrations :: "'d Migration list"
  assumes "\<forall>k\<in>set migrations. 0 <s Version k"
  shows "NewMigrator migrations = zeroMigration # sortMigrations migrations"
proof -
  have "\<forall>k\<in>set migrations. sint (Version (zeroMigration :: 'd Migration)) < sint (Version k)"
    using assms by (simp add: zeroMigration_def word_sless_alt)
  then show ?thesis
    unfolding NewMigrator_def sortMigrations_def by (rule sort_key_snoc_least)
qed

lemma NewMigrator_strict:
  fixes migrations :: "'d Migration list"
  assumes "distinct (map Version migrations)" and "\<forall>k\<in>set migrations. 0 <s Version k"
  shows "sorted_wrt Less (NewMigrator migrations)"
proof -
  have "Version (zeroMigration :: 'd Migration) \<notin> Version ` set migrations"
    using assms(2) by (auto simp: zeroMigration_def)
  with assms(1) have "distinct (map Version (migrations @ [zeroMigration]))"
    by simp
  then have "distinct (map Version (NewMigrator migrations))"
    unfolding NewMigrator_def by (simp only: sortMigrations_distinct)
  moreover have "sorted (map (\<lambda>m. sint (Version m)) (NewMigrator migrations))"
    unfolding NewMigrator_def by (rule sortMigrations_sorted)
  ultimately show ?thesis
    by (simp only: sorted_wrt_Less_iff)
qed

lemma Init_empty:
  assumes "migrations_coll db = []" and "faults db = []"
  shows "Migrator_Init m db
     = ((0, 0, None), db\<lparr>migrations_coll := [\<lparr>version = 0, name = ''-''\<rparr>]\<rparr>)"
  using assms
  by (simp add: Migrator_Init_def FindOne_zero_def InsertOne_def driver_op_no_faults)

text \<open>
  After \<open>init\<close> the history is the zero record, and the merge walks one step: \<open>up\<close>
  with no target applies and stores the known migrations after the zero migration, in
  ascending order, as far as their versions are below the bound.
\<close>

lemma Up_after_Init:
  fixes migrations :: "'d Migration list"
  assumes pos: "\<forall>k\<in>set migrations. 0 <s Version k"
    and fresh: "\<forall>k\<in>set migrations. \<not> Stored k"
    and ups: "\<forall>k\<in>set migrations. \<exists>g. Up k = Some g \<and> (\<forall>d. fst (g d) = None)"
    and coll: "migrations_coll db = [\<lparr>version = 0, name = ''-''\<rparr>]"
    and faults: "faults db = []"
  shows "\<exists>n db'. 0 < n
      \<and> Migrator_Up (NewMigrator migrations) db (- 1)
          = (Some (0, Version (last (take n (NewMigrator migrations))), None), db')
      \<and> calls db' = calls db @ map UpCall (map Version (tl (take n (NewMigrator migrations))))
      \<and> migrations_coll db' = map encode (take n (NewMigrator migrations))
      \<and> faults db' = []"
proof -
  let ?m = "NewMigrator migrations"
  let ?rest = "sortMigrations migrations"
  let ?z = "\<lparr>version = 0, name = ''-''\<rparr>"
  let ?P = "\<lambda>k :: 'd Migration. Version k <s mergeMax ?m (- 1)"
  let ?q = "takeWhile ?P ?m"
  let ?pending = "tl ?q"
  have m: "?m = zeroMigration # ?rest"
    using pos by (rule NewMigrator_Cons)
  have find: "Find db = (Inr [?z], db)"
    using coll faults by (simp add: Find_no_faults)
  have "\<not> Less (decode ?z :: 'd Migration) zeroMigration"
    and "\<not> Less zeroMigration (decode ?z :: 'd Migration)"
    by (simp_all add: Less_iff zeroMigration_def)
  then have "mergeMigrations [decode ?z] (zeroMigration # ?rest) (- 1)
      = Some (decode ?z # tl (takeWhile (\<lambda>k. Version k <s mergeMax (zeroMigration # ?rest) (- 1))
          (zeroMigration # ?rest)))"
    by (rule mergeMigrations_single)
  then have merge: "mergeMigrations [decode ?z] ?m (- 1) = Some (decode ?z # ?pending)"
    by (simp only: m [symmetric])
  have "set ?pending \<subseteq> set ?rest"
    unfolding m by (auto dest: set_takeWhileD)
  then have sub: "set ?pending \<subseteq> set migrations"
    by (simp add: sortMigrations_def)
  with fresh ups
  have ok: "\<forall>k\<in>set ?pending. \<not> Stored k \<and> (\<exists>g. Up k = Some g \<and> (\<forall>d. fst (g d) = None))"
    by blast
  from Up_loop_success [OF ok faults, of 0 0] obtain db' where
    loop: "Up_loop ?pending 0 0 db
        = (Some (0, if ?pending = [] then 0 else Version (last ?pending), None), db')"
    and calls: "calls db' = calls db @ map UpCall (map Version ?pending)"
    and coll': "migrations_coll db' = migrations_coll db @ map encode ?pending"
    and faults': "faults db' = []"
    by blast
  have up: "Migrator_Up ?m db (- 1)
      = (Some (0, if ?pending = [] then 0 else Version (last ?pending), None), db')"
    using find merge loop by (simp add: Migrator_Up_def decode_def)
  let ?n = "if ?P zeroMigration then length ?q else 1"
  have q: "take ?n ?m = zeroMigration # ?pending"
  proof (cases "?P zeroMigration")
    case True
    then have "?q = zeroMigration # ?pending"
      unfolding m by simp
    with True show ?thesis
      by (simp add: takeWhile_eq_take [symmetric])
  next
    case False
    then have "?q = []"
      unfolding m by simp
    with False show ?thesis
      unfolding m by simp
  qed
  have n: "0 < ?n"
    using q by (cases "?n") auto
  have "Version (last (take ?n ?m)) = (if ?pending = [] then 0 else Version (last ?pending))"
    unfolding q by (simp add: zeroMigration_def)
  moreover have "map encode (take ?n ?m) = migrations_coll db @ map encode ?pending"
    unfolding q using coll by (simp add: encode_def zeroMigration_def)
  moreover have "tl (take ?n ?m) = ?pending"
    unfolding q by simp
  ultimately have "0 < ?n
      \<and> Migrator_Up ?m db (- 1) = (Some (0, Version (last (take ?n ?m)), None), db')
      \<and> calls db' = calls db @ map UpCall (map Version (tl (take ?n ?m)))
      \<and> migrations_coll db' = map encode (take ?n ?m)
      \<and> faults db' = []"
    using n up calls coll' faults' by simp
  then show ?thesis
    by blast
qed


text \<open>
  The sequence \<open>init\<close>, \<open>up\<close> with no target, \<open>reset\<close> on an empty collection, for a
  caller's list with unique versions above 0, none stored, whose bodies succeed, and a
  driver that does not fail: \<open>up\<close> returns 0 and the version \<open>v\<close> it reached, and
  \<open>reset\<close> returns \<open>v\<close> and 0, calls the revert body of every record that \<open>up\<close> left,
  the highest first, and leaves the zero record alone.
\<close>

lemma Reset_after_Init_and_Up:
  fixes migrations :: "'d Migration list"
  assumes uniq: "distinct (map Version migrations)"
    and pos: "\<forall>k\<in>set migrations. 0 <s Version k"
    and fresh: "\<forall>k\<in>set migrations. \<not> Stored k"
    and ups: "\<forall>k\<in>set migrations. \<exists>g. Up k = Some g \<and> (\<forall>d. fst (g d) = None)"
    and downs: "\<forall>k\<in>set migrations. \<exists>g. Down k = Some g \<and> (\<forall>d. fst (g d) = None)"
    and empty: "migrations_coll db = []"
    and faults: "faults db = []"
  shows "\<exists>db1 v db2 db3.
      Migrator_Init (NewMigrator migrations) db = ((0, 0, None), db1)
      \<and> Migrator_Up (NewMigrator migrations) db1 (- 1) = (Some (0, v, None), db2)
      \<and> Migrator_Reset (NewMigrator migrations) db2 = (Some (v, 0, None), db3)
      \<and> calls db3 = calls db2 @ map DownCall (rev (map version (migrations_coll db2)))
      \<and> map version (migrations_coll db3) = [0]"
proof -
  let ?m = "NewMigrator migrations"
  let ?f = "\<lambda>d. sint (version d)"
  let ?db1 = "db\<lparr>migrations_coll := [\<lparr>version = 0, name = ''-''\<rparr>]\<rparr>"
  have init: "Migrator_Init ?m db = ((0, 0, None), ?db1)"
    using empty faults by (rule Init_empty)
  have "migrations_coll ?db1 = [\<lparr>version = 0, name = ''-''\<rparr>]" and "faults ?db1 = []"
    using faults by simp_all
  from Up_after_Init [OF pos fresh ups this] obtain n db2 where
    n: "0 < n"
    and up: "Migrator_Up ?m ?db1 (- 1) = (Some (0, Version (last (take n ?m)), None), db2)"
    and coll2: "migrations_coll db2 = map encode (take n ?m)"
    and faults2: "faults db2 = []"
    by blast
  have m: "?m = zeroMigration # sortMigrations migrations"
    using pos by (rule NewMigrator_Cons)
  have strict: "sorted_wrt Less ?m"
    using uniq pos by (rule NewMigrator_strict)
  have vs: "map version (migrations_coll db2) = take n (map Version ?m)"
    by (simp add: coll2 take_map comp_def encode_def)
  have fs: "map ?f (migrations_coll db2) = take n (map (\<lambda>k. sint (Version k)) ?m)"
    by (simp add: coll2 take_map comp_def encode_def)
  have bodies: "\<forall>k\<in>set ?m. \<exists>g. Down k = Some g \<and> (\<forall>d. fst (g d) = None)"
    using downs by (simp add: set_NewMigrator zeroMigration_def DummyUpDown_def)
  have unique: "distinct (map version (migrations_coll db2))"
    unfolding vs using strict by (simp add: sorted_wrt_Less_iff)
  have "set (take n ?m) \<subseteq> set ?m"
    by (rule set_take_subset)
  then have covered: "version ` set (migrations_coll db2) \<subseteq> Version ` set ?m"
    by (auto simp: coll2 encode_def)
  from n obtain n' where "n = Suc n'"
    by (cases n) auto
  then have tk: "take n ?m = zeroMigration # take n' (sortMigrations migrations)"
    by (simp add: m)
  then have zero: "\<exists>d\<in>set (migrations_coll db2). version d = 0"
    by (simp add: coll2 encode_def zeroMigration_def)
  have "\<forall>k\<in>set ?m. \<not> Version k <s 0"
    using pos by (auto simp: set_NewMigrator zeroMigration_def word_sless_alt)
  with \<open>set (take n ?m) \<subseteq> set ?m\<close>
  have floor: "\<forall>d\<in>set (migrations_coll db2). \<not> version d <s 0"
    by (auto simp: coll2 encode_def)
  from Reset_covered [OF strict bodies faults2 unique covered zero floor]
  obtain old db3 where
    v: "Migrator_Version ?m db2 = ((old, old, None), db2)"
    and reset: "Migrator_Reset ?m db2 = (Some (old, 0, None), db3)"
    and calls: "calls db3 = calls db2 @ map DownCall
        (rev (map version (sort_key ?f (migrations_coll db2))))"
    and only: "map version (migrations_coll db3) = [0]"
    by (elim exE conjE) (rule that, assumption+)
  have "sorted (map ?f (migrations_coll db2))"
    unfolding fs using strict by (simp add: sorted_wrt_Less_iff)
  then have sorted: "sort_key ?f (migrations_coll db2) = migrations_coll db2"
    by (rule sort_key_id_if_sorted)
  have ne: "migrations_coll db2 \<noteq> []"
    using zero by auto
  from Version_initialized [OF faults2 ne, of ?m] v sorted
  have "old = version (last (migrations_coll db2))"
    by simp
  also have "\<dots> = Version (last (take n ?m))"
    using tk by (simp add: coll2 last_map encode_def)
  finally have old: "old = Version (last (take n ?m))" .
  have "Migrator_Init ?m db = ((0, 0, None), ?db1)
      \<and> Migrator_Up ?m ?db1 (- 1) = (Some (0, old, None), db2)
      \<and> Migrator_Reset ?m db2 = (Some (old, 0, None), db3)
      \<and> calls db3 = calls db2 @ map DownCall (rev (map version (migrations_coll db2)))
      \<and> map version (migrations_coll db3) = [0]"
    using init up reset calls only sorted old by simp
  then show ?thesis
    by (intro exI)
qed

end
